theory Spec2Isabelle
  imports Main "HOL-Library.AList"
begin

section \<open>Data model of the chat manager\<close>

text \<open>
  The development embeds \<^verbatim>\<open>ChatManager\<close> (chatManager.ts, together with the chunk type of
  perplexityClient.ts that it consumes). JavaScript objects have identity: a session object,
  its \<^verbatim>\<open>messages\<close> array and every message object are reached through references, and the
  code mutates them in place. The model therefore keeps three typed object stores, indexed by
  addresses, and a session holds the address of its array, an array holds the addresses of
  its messages.

  Strings are Isabelle strings (code units below 256), a \<^verbatim>\<open>Date\<close> is its time value in
  milliseconds (only valid dates occur: they come from \<^verbatim>\<open>new Date()\<close> or from the ISO
  string of such a date), an optional field is an \<open>option\<close> (\<open>None\<close> is \<^verbatim>\<open>undefined\<close>).
\<close>

datatype SearchMode = General | Debug | Explain | Optimize | Test | Research

datatype Role = User | Assistant | System

type_synonym addr = nat

type_synonym date = int

record ChatMessage =
  m_id :: string
  m_role :: Role
  m_content :: string
  m_timestamp :: date
  m_citations :: "string list option"
  m_mode :: "SearchMode option"
  m_streaming :: "bool option"

text \<open>
  A session, parametrised by what its \<^verbatim>\<open>messages\<close> field holds: the address of the array
  for an object in the store, the list of message values for a snapshot.
\<close>

record 'ms ChatSession =
  s_id :: string
  s_title :: string
  s_messages :: 'ms
  s_createdAt :: date
  s_updatedAt :: date
  s_mode :: SearchMode

text \<open>
  The persisted blob (\<^verbatim>\<open>globalState\<close>, key \<^verbatim>\<open>perplexityChat.sessions\<close>) holds JSON: a field
  that JSON omits, or that a damaged blob lacks, is \<open>None\<close>; a date is stored as its ISO
  string, which is modelled by the time value it denotes.
\<close>

record StoredMessage =
  sm_id :: "string option"
  sm_role :: "Role option"
  sm_content :: "string option"
  sm_timestamp :: "date option"
  sm_citations :: "string list option"
  sm_mode :: "SearchMode option"
  sm_streaming :: "bool option"

record StoredSession =
  ss_id :: "string option"
  ss_title :: "string option"
  ss_messages :: "StoredMessage list option"
  ss_createdAt :: "date option"
  ss_updatedAt :: "date option"
  ss_mode :: "SearchMode option"

text \<open>A thrown value: an \<^verbatim>\<open>Error\<close> with its message, or anything else.\<close>

datatype thrown = Error string | NonError

text \<open>
  One chunk of the transport's stream (\<^verbatim>\<open>PerplexityResponse\<close>): of a choice only the optional
  \<^verbatim>\<open>delta\<close> and of the delta only its optional \<^verbatim>\<open>content\<close> are read.
\<close>

type_synonym Delta = "string option"

type_synonym Choice = "Delta option"

record Chunk =
  ch_choices :: "Choice list option"
  ch_citations :: "string list option"

text \<open>How the stream ends: the generator returns, or it throws.\<close>

datatype outcome = EndOfStream | Failure thrown

text \<open>
  The manager: the object stores with their allocation pointer, the \<^verbatim>\<open>sessions\<close> map in
  insertion order (a JavaScript \<^verbatim>\<open>Map\<close> iterates in insertion order), the current session
  id, the persisted blob, the notifications fired so far (each the snapshot a subscriber
  sees when it is called), and the two outside sources the code reads: \<^verbatim>\<open>uuidv4()\<close> and
  \<^verbatim>\<open>new Date()\<close>, each a sequence with the number of values already drawn.
\<close>

record ChatManager =
  sessionObjs :: "addr \<Rightarrow> addr ChatSession"
  arrayObjs :: "addr \<Rightarrow> addr list"
  messageObjs :: "addr \<Rightarrow> ChatMessage"
  nextAddr :: addr
  sessions :: "(string \<times> addr) list"
  currentSessionId :: "string option"
  globalState :: "StoredSession list"
  fired :: "ChatMessage list ChatSession option list"
  uuidSource :: "nat \<Rightarrow> string"
  uuidCalls :: nat
  clock :: "nat \<Rightarrow> date"
  clockCalls :: nat

section \<open>Primitives\<close>

definition uuidv4 :: "ChatManager \<Rightarrow> string \<times> ChatManager" where
  "uuidv4 st = (uuidSource st (uuidCalls st), st\<lparr>uuidCalls := Suc (uuidCalls st)\<rparr>)"

definition newDate :: "ChatManager \<Rightarrow> date \<times> ChatManager" where
  "newDate st = (clock st (clockCalls st), st\<lparr>clockCalls := Suc (clockCalls st)\<rparr>)"

definition allocMessage :: "ChatMessage \<Rightarrow> ChatManager \<Rightarrow> addr \<times> ChatManager" where
  "allocMessage m st =
     (nextAddr st,
      st\<lparr>messageObjs := (messageObjs st)(nextAddr st := m), nextAddr := Suc (nextAddr st)\<rparr>)"

definition allocArray :: "addr list \<Rightarrow> ChatManager \<Rightarrow> addr \<times> ChatManager" where
  "allocArray xs st =
     (nextAddr st,
      st\<lparr>arrayObjs := (arrayObjs st)(nextAddr st := xs), nextAddr := Suc (nextAddr st)\<rparr>)"

definition allocSession :: "addr ChatSession \<Rightarrow> ChatManager \<Rightarrow> addr \<times> ChatManager" where
  "allocSession s st =
     (nextAddr st,
      st\<lparr>sessionObjs := (sessionObjs st)(nextAddr st := s), nextAddr := Suc (nextAddr st)\<rparr>)"

text \<open>\<^verbatim>\<open>array.push(x)\<close> on the array at an address.\<close>

definition push :: "addr \<Rightarrow> addr \<Rightarrow> ChatManager \<Rightarrow> ChatManager" where
  "push arr x st = st\<lparr>arrayObjs := (arrayObjs st)(arr := arrayObjs st arr @ [x])\<rparr>"

text \<open>Writes through a reference to a session object or a message object.\<close>

definition writeSession ::
  "addr \<Rightarrow> (addr ChatSession \<Rightarrow> addr ChatSession) \<Rightarrow> ChatManager \<Rightarrow> ChatManager" where
  "writeSession a f st = st\<lparr>sessionObjs := (sessionObjs st)(a := f (sessionObjs st a))\<rparr>"

definition writeMessage ::
  "addr \<Rightarrow> (ChatMessage \<Rightarrow> ChatMessage) \<Rightarrow> ChatManager \<Rightarrow> ChatManager" where
  "writeMessage a f st = st\<lparr>messageObjs := (messageObjs st)(a := f (messageObjs st a))\<rparr>"

text \<open>\<^verbatim>\<open>session.messages\<close> read through: the message values of the session at an address.\<close>

definition messagesOf :: "ChatManager \<Rightarrow> addr \<Rightarrow> ChatMessage list" where
  "messagesOf st a = map (messageObjs st) (arrayObjs st (s_messages (sessionObjs st a)))"

text \<open>What a reader of the session object at an address sees, messages included.\<close>

definition snapshot :: "ChatManager \<Rightarrow> addr \<Rightarrow> ChatMessage list ChatSession" where
  "snapshot st a =
     \<lparr>s_id = s_id (sessionObjs st a), s_title = s_title (sessionObjs st a),
      s_messages = messagesOf st a,
      s_createdAt = s_createdAt (sessionObjs st a), s_updatedAt = s_updatedAt (sessionObjs st a),
      s_mode = s_mode (sessionObjs st a)\<rparr>"

text \<open>
  \<^verbatim>\<open>eventEmitter.fire(session)\<close>: subscribers run synchronously, so what they observe is the
  snapshot at this moment.
\<close>

definition fire :: "addr option \<Rightarrow> ChatManager \<Rightarrow> ChatManager" where
  "fire ev st = st\<lparr>fired := fired st @ [map_option (snapshot st) ev]\<rparr>"

text \<open>JavaScript truthiness of an optional string: present and not empty.\<close>

definition truthy :: "string option \<Rightarrow> bool" where
  "truthy x = (case x of None \<Rightarrow> False | Some s \<Rightarrow> s \<noteq> [])"

text \<open>\<^verbatim>\<open>x || d\<close> on an optional string.\<close>

definition orDefault :: "string option \<Rightarrow> string \<Rightarrow> string" where
  "orDefault x d = (case x of None \<Rightarrow> d | Some s \<Rightarrow> if s = [] then d else s)"

section \<open>String operations of the title rule\<close>

text \<open>
  The characters matched by \<^verbatim>\<open>\s\<close> and stripped by \<^verbatim>\<open>trim()\<close>, among the code units below
  256: tab, line feed, vertical tab, form feed, carriage return, space, no-break space.
\<close>

definition isWhiteSpace :: "char \<Rightarrow> bool" where
  "isWhiteSpace c \<longleftrightarrow>
     c \<in> {CHR 0x09, CHR 0x0A, CHR 0x0B, CHR 0x0C, CHR 0x0D, CHR 0x20, CHR 0xA0}"

definition trim :: "string \<Rightarrow> string" where
  "trim s = rev (dropWhile isWhiteSpace (rev (dropWhile isWhiteSpace s)))"

text \<open>
  \<^verbatim>\<open>s.split(/\s+/)\<close>: the piece before the first whitespace run, then the split of what
  follows that run; a string without whitespace (the empty string too) is one piece.
\<close>

function splitWhitespace :: "string \<Rightarrow> string list" where
  "splitWhitespace s =
     takeWhile (\<lambda>c. \<not> isWhiteSpace c) s #
     (case dropWhile (\<lambda>c. \<not> isWhiteSpace c) s of
        [] \<Rightarrow> []
      | _ # rest \<Rightarrow> splitWhitespace (dropWhile isWhiteSpace rest))"
  by pat_completeness auto
termination
proof (relation "measure length")
  show "wf (measure length)" by simp
next
  fix s :: string and x rest
  assume d: "dropWhile (\<lambda>c. \<not> isWhiteSpace c) s = x # rest"
  have "length (dropWhile isWhiteSpace rest) \<le> length rest"
    by (rule length_dropWhile_le)
  also have "length rest < length (x # rest)" by simp
  also have "length (x # rest) \<le> length s"
    unfolding d [symmetric] by (rule length_dropWhile_le)
  finally show "(dropWhile isWhiteSpace rest, s) \<in> measure length" by simp
qed

declare splitWhitespace.simps [simp del]

text \<open>\<^verbatim>\<open>words.join(sep)\<close>.\<close>

fun join :: "string \<Rightarrow> string list \<Rightarrow> string" where
  "join sep [] = []"
| "join sep [w] = w"
| "join sep (w # v # ws) = w @ sep @ join sep (v # ws)"

definition generateSessionTitle :: "string \<Rightarrow> string" where
  "generateSessionTitle firstMessage =
     (let words = splitWhitespace (trim firstMessage)
      in if length words \<le> 5 then firstMessage
         else join '' '' (take 5 words) @ ''...'')"

section \<open>Persistence\<close>

text \<open>
  \<^verbatim>\<open>saveSessions\<close>. The type tests of the source (\<^verbatim>\<open>typeof session.id === 'string'\<close>,
  \<^verbatim>\<open>Array.isArray\<close>, the role, content and timestamp tests on a message) hold for every
  value of the model's types, so the only entry skipped is one with an empty key, and every
  message is kept. A \<^verbatim>\<open>Date\<close> is always truthy, so \<^verbatim>\<open>session.createdAt || new Date()\<close> is
  the session's own date. The message objects are written as they are; JSON drops the
  fields that are \<^verbatim>\<open>undefined\<close>.
\<close>

definition toStored :: "ChatMessage \<Rightarrow> StoredMessage" where
  "toStored m =
     \<lparr>sm_id = Some (m_id m), sm_role = Some (m_role m), sm_content = Some (m_content m),
      sm_timestamp = Some (m_timestamp m), sm_citations = m_citations m, sm_mode = m_mode m,
      sm_streaming = m_streaming m\<rparr>"

definition storedSession :: "ChatManager \<Rightarrow> addr \<Rightarrow> StoredSession" where
  "storedSession st session =
     \<lparr>ss_id = Some (s_id (sessionObjs st session)),
      ss_title = Some (orDefault (Some (s_title (sessionObjs st session))) ''Untitled''),
      ss_messages = Some (map toStored (messagesOf st session)),
      ss_createdAt = Some (s_createdAt (sessionObjs st session)),
      ss_updatedAt = Some (s_updatedAt (sessionObjs st session)),
      ss_mode = Some (s_mode (sessionObjs st session))\<rparr>"

definition saveEntry :: "ChatManager \<Rightarrow> string \<times> addr \<Rightarrow> StoredSession option" where
  "saveEntry st entry =
     (case entry of (key, session) \<Rightarrow>
        if key = [] then None else Some (storedSession st session))"

definition saveSessions :: "ChatManager \<Rightarrow> ChatManager" where
  "saveSessions st = st\<lparr>globalState := List.map_filter (saveEntry st) (sessions st)\<rparr>"

text \<open>\<^verbatim>\<open>x ? new Date(x) : new Date()\<close> on a stored date.\<close>

definition dateOrNow :: "date option \<Rightarrow> ChatManager \<Rightarrow> date \<times> ChatManager" where
  "dateOrNow x st = (case x of Some t \<Rightarrow> (t, st) | None \<Rightarrow> newDate st)"

text \<open>
  The messages of one stored session: \<^verbatim>\<open>filter(msg => msg && msg.id && msg.role &&
  msg.content)\<close>, then a new message object for each one kept.
\<close>

fun loadMessages :: "StoredMessage list \<Rightarrow> ChatManager \<Rightarrow> addr list \<times> ChatManager" where
  "loadMessages [] st = ([], st)"
| "loadMessages (msg # rest) st =
     (case sm_role msg of
        None \<Rightarrow> loadMessages rest st
      | Some role \<Rightarrow>
          if truthy (sm_id msg) \<and> truthy (sm_content msg) then
            (let (ts, st1) = dateOrNow (sm_timestamp msg) st;
                 (a, st2) = allocMessage
                   \<lparr>m_id = orDefault (sm_id msg) [], m_role = role,
                    m_content = orDefault (sm_content msg) [], m_timestamp = ts,
                    m_citations = Some (case sm_citations msg of None \<Rightarrow> [] | Some cs \<Rightarrow> cs),
                    m_mode = Some (case sm_mode msg of None \<Rightarrow> General | Some md \<Rightarrow> md),
                    m_streaming = Some (sm_streaming msg = Some True)\<rparr> st1;
                 (as, st3) = loadMessages rest st2
             in (a # as, st3))
          else loadMessages rest st)"

text \<open>\<^verbatim>\<open>getAllSessions\<close>: the session objects of the map, sorted (stably) by \<^verbatim>\<open>updatedAt\<close>, newest first.\<close>

definition getAllSessions :: "ChatManager \<Rightarrow> addr list" where
  "getAllSessions st = sort_key (\<lambda>a. - s_updatedAt (sessionObjs st a)) (map snd (sessions st))"

text \<open>One stored session that has an id: its session object, put into the map under that id.\<close>

definition loadEntry :: "StoredSession \<Rightarrow> ChatManager \<Rightarrow> ChatManager" where
  "loadEntry sessionData st =
     (let (ms, st1) = (case ss_messages sessionData of
                         Some msgs \<Rightarrow> loadMessages msgs st
                       | None \<Rightarrow> ([], st));
          (arr, st2) = allocArray ms st1;
          (created, st3) = dateOrNow (ss_createdAt sessionData) st2;
          (updated, st4) = dateOrNow (ss_updatedAt sessionData) st3;
          (session, st5) = allocSession
            \<lparr>s_id = orDefault (ss_id sessionData) [],
             s_title = orDefault (ss_title sessionData) ''Untitled'',
             s_messages = arr, s_createdAt = created, s_updatedAt = updated,
             s_mode = (case ss_mode sessionData of None \<Rightarrow> General | Some md \<Rightarrow> md)\<rparr> st4
      in st5\<lparr>sessions := AList.update (orDefault (ss_id sessionData) []) session (sessions st5)\<rparr>)"

fun loadEntries :: "StoredSession list \<Rightarrow> ChatManager \<Rightarrow> ChatManager" where
  "loadEntries [] st = st"
| "loadEntries (sessionData # rest) st =
     loadEntries rest (if truthy (ss_id sessionData) then loadEntry sessionData st else st)"

definition loadSessions :: "ChatManager \<Rightarrow> ChatManager" where
  "loadSessions st =
     (let st1 = loadEntries (globalState st) (st\<lparr>sessions := []\<rparr>)
      in case getAllSessions st1 of
           [] \<Rightarrow> st1
         | s # _ \<Rightarrow> st1\<lparr>currentSessionId := Some (s_id (sessionObjs st1 s))\<rparr>)"

text \<open>
  The constructor: a manager with no session and no current session, over the given blob and
  outside sources, which then loads the blob.
\<close>

definition blankMessage :: ChatMessage where
  "blankMessage =
     \<lparr>m_id = [], m_role = System, m_content = [], m_timestamp = 0, m_citations = None,
      m_mode = None, m_streaming = None\<rparr>"

definition blankSession :: "addr ChatSession" where
  "blankSession =
     \<lparr>s_id = [], s_title = [], s_messages = 0, s_createdAt = 0, s_updatedAt = 0,
      s_mode = General\<rparr>"

definition emptyManager ::
  "StoredSession list \<Rightarrow> (nat \<Rightarrow> string) \<Rightarrow> nat \<Rightarrow> (nat \<Rightarrow> date) \<Rightarrow> nat \<Rightarrow> ChatManager" where
  "emptyManager blob uu un cl cn =
     \<lparr>sessionObjs = (\<lambda>_. blankSession), arrayObjs = (\<lambda>_. []), messageObjs = (\<lambda>_. blankMessage),
      nextAddr = 0, sessions = [], currentSessionId = None, globalState = blob, fired = [],
      uuidSource = uu, uuidCalls = un, clock = cl, clockCalls = cn\<rparr>"

definition newChatManager ::
  "StoredSession list \<Rightarrow> (nat \<Rightarrow> string) \<Rightarrow> (nat \<Rightarrow> date) \<Rightarrow> ChatManager" where
  "newChatManager blob uu cl = loadSessions (emptyManager blob uu 0 cl 0)"

section \<open>Sessions\<close>

definition systemMessages :: "SearchMode \<Rightarrow> string" where
  "systemMessages mode =
     (case mode of
        General \<Rightarrow> ''You are a helpful AI assistant. Provide accurate, concise, and well-structured responses.''
      | Debug \<Rightarrow> ''You are an expert code debugger. Help identify issues, explain problems clearly, and suggest specific fixes.''
      | Explain \<Rightarrow> ''You are a code explanation expert. Break down code into understandable parts and explain concepts clearly.''
      | Optimize \<Rightarrow> ''You are a code optimization expert. Focus on performance improvements, best practices, and cleaner code structure.''
      | Test \<Rightarrow> ''You are a testing expert. Generate comprehensive, well-structured unit tests with good coverage.''
      | Research \<Rightarrow> ''You are a research assistant. Provide thorough, well-cited information with reliable sources.'')"

definition getSystemMessage :: "SearchMode \<Rightarrow> string option" where
  "getSystemMessage mode = (if systemMessages mode = [] then None else Some (systemMessages mode))"

definition addSystemMessage :: "addr \<Rightarrow> SearchMode \<Rightarrow> ChatManager \<Rightarrow> ChatManager" where
  "addSystemMessage arr mode st =
     (case getSystemMessage mode of
        None \<Rightarrow> st
      | Some systemMessage \<Rightarrow>
          (let (mid, st1) = uuidv4 st;
               (ts, st2) = newDate st1;
               (m, st3) = allocMessage
                 \<lparr>m_id = mid, m_role = System, m_content = systemMessage, m_timestamp = ts,
                  m_citations = None, m_mode = None, m_streaming = None\<rparr> st2
           in push arr m st3))"

text \<open>
  \<^verbatim>\<open>createNewSession\<close>: first the new session object with its system message, entered into
  the map and made current; then the save and the notification.
\<close>

definition newSession ::
  "string option \<Rightarrow> SearchMode \<Rightarrow> ChatManager \<Rightarrow> (string \<times> addr) \<times> ChatManager" where
  "newSession title mode st =
     (let (sessionId, st1) = uuidv4 st;
          (arr, st2) = allocArray [] st1;
          (created, st3) = newDate st2;
          (updated, st4) = newDate st3;
          (session, st5) = allocSession
            \<lparr>s_id = sessionId, s_title = orDefault title ''New Chat'', s_messages = arr,
             s_createdAt = created, s_updatedAt = updated, s_mode = mode\<rparr> st4;
          st6 = addSystemMessage arr mode st5
      in ((sessionId, session),
          st6\<lparr>sessions := AList.update sessionId session (sessions st6),
              currentSessionId := Some sessionId\<rparr>))"

definition createNewSession ::
  "string option \<Rightarrow> SearchMode \<Rightarrow> ChatManager \<Rightarrow> string \<times> ChatManager" where
  "createNewSession title mode st =
     (let ((sessionId, session), st7) = newSession title mode st;
          st8 = saveSessions st7;
          st9 = fire (Some session) st8
      in (sessionId, st9))"

text \<open>\<^verbatim>\<open>{...session}\<close>: a new session object with the same field values (the same array).\<close>

definition copySession :: "addr \<Rightarrow> ChatManager \<Rightarrow> addr \<times> ChatManager" where
  "copySession a st = allocSession (sessionObjs st a) st"

definition getSession :: "string \<Rightarrow> ChatManager \<Rightarrow> addr option \<times> ChatManager" where
  "getSession sessionId st =
     (case map_of (sessions st) sessionId of
        None \<Rightarrow> (None, st)
      | Some session \<Rightarrow> (let (c, st1) = copySession session st in (Some c, st1)))"

definition getCurrentSession :: "ChatManager \<Rightarrow> addr option \<times> ChatManager" where
  "getCurrentSession st =
     (if \<not> truthy (currentSessionId st) then (None, st)
      else getSession (orDefault (currentSessionId st) []) st)"

definition switchToSession :: "string \<Rightarrow> ChatManager \<Rightarrow> (thrown + unit) \<times> ChatManager" where
  "switchToSession sessionId st =
     (if sessionId = [] then (Inl (Error ''Session ID must be a non-empty string''), st)
      else case map_of (sessions st) sessionId of
        None \<Rightarrow> (Inl (Error (''Session not found: '' @ sessionId)), st)
      | Some session \<Rightarrow>
          (let s = sessionObjs st session;
               (vid, st1) = (if s_id s \<noteq> [] then (s_id s, st) else uuidv4 st);
               (validSession, st2) = allocSession
                 \<lparr>s_id = vid, s_title = orDefault (Some (s_title s)) ''Untitled'',
                  s_messages = s_messages s, s_createdAt = s_createdAt s,
                  s_updatedAt = s_updatedAt s, s_mode = s_mode s\<rparr> st1
           in (Inr (), fire (Some validSession) (st2\<lparr>currentSessionId := Some vid\<rparr>))))"

definition deleteSession :: "string \<Rightarrow> ChatManager \<Rightarrow> ChatManager" where
  "deleteSession sessionId st =
     (if sessionId = [] \<or> map_of (sessions st) sessionId = None then st
      else
        (let st1 = st\<lparr>sessions := AList.delete sessionId (sessions st)\<rparr>;
             st2 = (if currentSessionId st1 = Some sessionId then
                      (case getAllSessions st1 of
                         [] \<Rightarrow> st1\<lparr>currentSessionId := None\<rparr>
                       | s # _ \<Rightarrow> st1\<lparr>currentSessionId := Some (s_id (sessionObjs st1 s))\<rparr>)
                    else st1);
             st3 = saveSessions st2;
             (currentSession, st4) = getCurrentSession st3
         in case currentSession of
              Some c \<Rightarrow> (let (c2, st5) = copySession c st4 in fire (Some c2) st5)
            | None \<Rightarrow> fire None st4))"

definition clearAllSessions :: "ChatManager \<Rightarrow> ChatManager" where
  "clearAllSessions st =
     fire None (saveSessions (st\<lparr>sessions := [], currentSessionId := None\<rparr>))"

section \<open>Sending a message\<close>

text \<open>\<^verbatim>\<open>prepareMessagesForAPI\<close>: the role test holds for every role of the model.\<close>

definition prepareMessagesForAPI :: "ChatMessage list \<Rightarrow> SearchMode \<Rightarrow> (Role \<times> string) list" where
  "prepareMessagesForAPI messages mode =
     map (\<lambda>m. (m_role m, m_content m))
       (filter (\<lambda>m. m_streaming m \<noteq> Some True \<and> trim (m_content m) \<noteq> []) messages)"

text \<open>
  \<^verbatim>\<open>sendMessage\<close> awaits the transport between chunks, and other calls can run while it
  waits. It is therefore modelled in the steps between which it can be suspended: the part up
  to the first notification, one step for each chunk, and the normal or the failing end. The
  local variables that live across the steps form the frame.
\<close>

record Frame =
  f_session :: addr
  f_apiMessages :: "(Role \<times> string) list"
  f_assistantMessage :: addr
  f_fullContent :: string
  f_citations :: "string list"

text \<open>The user message, and the session's date and mode.\<close>

definition pushUserMessage :: "string \<Rightarrow> SearchMode \<Rightarrow> addr \<Rightarrow> ChatManager \<Rightarrow> ChatManager" where
  "pushUserMessage content mode session st =
     (let (uid, st1) = uuidv4 st;
          (ts, st2) = newDate st1;
          (userMessage, st3) = allocMessage
            \<lparr>m_id = uid, m_role = User, m_content = content, m_timestamp = ts,
             m_citations = None, m_mode = Some mode, m_streaming = None\<rparr> st2;
          st4 = push (s_messages (sessionObjs st3 session)) userMessage st3;
          (updated, st5) = newDate st4
      in writeSession session (\<lambda>s. s\<lparr>s_updatedAt := updated, s_mode := mode\<rparr>) st5)"

text \<open>The title rule: applied when the session now has exactly one user message.\<close>

definition updateTitle :: "string \<Rightarrow> addr \<Rightarrow> ChatManager \<Rightarrow> ChatManager" where
  "updateTitle content session st =
     (if length (filter (\<lambda>m. m_role m = User) (messagesOf st session)) = 1
      then writeSession session (\<lambda>s. s\<lparr>s_title := generateSessionTitle content\<rparr>) st
      else st)"

definition addUserMessage :: "string \<Rightarrow> SearchMode \<Rightarrow> addr \<Rightarrow> ChatManager \<Rightarrow> ChatManager" where
  "addUserMessage content mode session st =
     updateTitle content session (pushUserMessage content mode session st)"

text \<open>The placeholder of the assistant's answer, and the first notification.\<close>

definition addPlaceholder :: "addr \<Rightarrow> ChatManager \<Rightarrow> addr \<times> ChatManager" where
  "addPlaceholder session st =
     (let (aid, st1) = uuidv4 st;
          (ts, st2) = newDate st1;
          (assistantMessage, st3) = allocMessage
            \<lparr>m_id = aid, m_role = Assistant, m_content = [], m_timestamp = ts,
             m_citations = None, m_mode = None, m_streaming = Some True\<rparr> st2;
          st4 = push (s_messages (sessionObjs st3 session)) assistantMessage st3
      in (assistantMessage, fire (Some session) st4))"

text \<open>Without a current session one is created first.\<close>

definition ensureSession :: "SearchMode \<Rightarrow> ChatManager \<Rightarrow> ChatManager" where
  "ensureSession mode st =
     (if \<not> truthy (currentSessionId st)
      then snd (createNewSession (Some ''New Chat'') mode st) else st)"

text \<open>\<^verbatim>\<open>this.sessions.get(this.currentSessionId)\<close>.\<close>

definition currentSessionObj :: "ChatManager \<Rightarrow> addr option" where
  "currentSessionObj st =
     (case currentSessionId st of None \<Rightarrow> None | Some cid \<Rightarrow> map_of (sessions st) cid)"

definition sendMessage_begin ::
  "string \<Rightarrow> SearchMode \<Rightarrow> ChatManager \<Rightarrow> (thrown + Frame) \<times> ChatManager" where
  "sendMessage_begin content mode st =
     (let st1 = ensureSession mode st
      in case currentSessionObj st1 of
           None \<Rightarrow> (Inl (Error ''No active session found''), st1)
         | Some session \<Rightarrow>
             (let st2 = addUserMessage content mode session st1;
                  apiMessages = prepareMessagesForAPI (messagesOf st2 session) mode;
                  (assistantMessage, st3) = addPlaceholder session st2
              in (Inr \<lparr>f_session = session, f_apiMessages = apiMessages,
                        f_assistantMessage = assistantMessage, f_fullContent = [],
                        f_citations = []\<rparr>, st3)))"

text \<open>\<^verbatim>\<open>chunk.choices[0].delta?.content\<close>, when the chunk has a first choice.\<close>

definition deltaContent :: "Chunk \<Rightarrow> string option" where
  "deltaContent chunk =
     (case ch_choices chunk of
        None \<Rightarrow> None
      | Some [] \<Rightarrow> None
      | Some (choice # _) \<Rightarrow> (case choice of None \<Rightarrow> None | Some delta \<Rightarrow> delta))"

definition sendMessage_chunk :: "Chunk \<Rightarrow> Frame \<times> ChatManager \<Rightarrow> Frame \<times> ChatManager" where
  "sendMessage_chunk chunk fs =
     (case fs of (fr, st) \<Rightarrow>
        (let (fr1, st1) =
               (if truthy (deltaContent chunk) then
                  (let fullContent = f_fullContent fr @ orDefault (deltaContent chunk) [];
                       st' = writeMessage (f_assistantMessage fr)
                               (\<lambda>m. m\<lparr>m_content := fullContent, m_streaming := Some True\<rparr>) st
                   in (fr\<lparr>f_fullContent := fullContent\<rparr>, fire (Some (f_session fr)) st'))
                else (fr, st))
         in (case ch_citations chunk of
               None \<Rightarrow> fr1
             | Some cs \<Rightarrow> fr1\<lparr>f_citations := f_citations fr1 @ cs\<rparr>, st1)))"

text \<open>\<^verbatim>\<open>Array.from(new Set(xs))\<close>: a set keeps its elements in the order of first insertion.\<close>

definition arrayFromSet :: "string list \<Rightarrow> string list" where
  "arrayFromSet xs = foldl (\<lambda>acc x. if x \<in> set acc then acc else acc @ [x]) [] xs"

definition sendMessage_end :: "Frame \<Rightarrow> ChatManager \<Rightarrow> addr \<times> ChatManager" where
  "sendMessage_end fr st =
     (let st1 = writeMessage (f_assistantMessage fr)
                  (\<lambda>m. m\<lparr>m_content := f_fullContent fr,
                          m_citations := (if length (f_citations fr) > 0
                                          then Some (arrayFromSet (f_citations fr)) else None),
                          m_streaming := Some False\<rparr>) st;
          (updated, st2) = newDate st1;
          st3 = writeSession (f_session fr) (\<lambda>s. s\<lparr>s_updatedAt := updated\<rparr>) st2;
          st4 = saveSessions st3
      in (f_assistantMessage fr, fire (Some (f_session fr)) st4))"

text \<open>The \<^verbatim>\<open>catch\<close> block; the caller then gets the thrown value again.\<close>

definition errorText :: "thrown \<Rightarrow> string" where
  "errorText e = ''Error: '' @ (case e of Error msg \<Rightarrow> msg | NonError \<Rightarrow> ''Unknown error occurred'')"

definition sendMessage_catch :: "thrown \<Rightarrow> addr \<Rightarrow> ChatManager \<Rightarrow> ChatManager" where
  "sendMessage_catch e session st =
     (let msgs = arrayObjs st (s_messages (sessionObjs st session));
          st1 = (if length msgs > 0 then
                   (let lastMessage = last msgs;
                        (arr, sa) = allocArray
                          (filter (\<lambda>m. m_id (messageObjs st m) \<noteq> m_id (messageObjs st lastMessage)) msgs) st
                    in writeSession session (\<lambda>s. s\<lparr>s_messages := arr\<rparr>) sa)
                 else st);
          (eid, st2) = uuidv4 st1;
          (ts, st3) = newDate st2;
          (errorMessage, st4) = allocMessage
            \<lparr>m_id = eid, m_role = Assistant, m_content = errorText e, m_timestamp = ts,
             m_citations = None, m_mode = None, m_streaming = None\<rparr> st3;
          st5 = push (s_messages (sessionObjs st4 session)) errorMessage st4
      in fire (Some session) st5)"

text \<open>
  A whole call that nothing interrupts: the chunks the transport yields, in order, and how
  its stream ends. The result is the thrown value or the address of the assistant message.
\<close>

definition sendMessage ::
  "string \<Rightarrow> SearchMode \<Rightarrow> Chunk list \<Rightarrow> outcome \<Rightarrow> ChatManager \<Rightarrow> (thrown + addr) \<times> ChatManager" where
  "sendMessage content mode chunks out st =
     (case sendMessage_begin content mode st of
        (Inl e, st1) \<Rightarrow> (Inl e, st1)
      | (Inr fr, st1) \<Rightarrow>
          (case fold sendMessage_chunk chunks (fr, st1) of
             (fr2, st2) \<Rightarrow>
               (case out of
                  EndOfStream \<Rightarrow> (let (a, st3) = sendMessage_end fr2 st2 in (Inr a, st3))
                | Failure e \<Rightarrow> (Inl e, sendMessage_catch e (f_session fr2) st2))))"

section \<open>Notions used by the properties\<close>

text \<open>
  The store is consistent when the map has each key once, each key is the id of its session
  object, no two entries share a session object or a messages array, and every address the
  map reaches has been allocated.
\<close>

definition consistent :: "ChatManager \<Rightarrow> bool" where
  "consistent st \<longleftrightarrow>
     distinct (map fst (sessions st)) \<and>
     distinct (map snd (sessions st)) \<and>
     distinct (map (\<lambda>e. s_messages (sessionObjs st (snd e))) (sessions st)) \<and>
     (\<forall>e \<in> set (sessions st).
        snd e < nextAddr st \<and>
        s_id (sessionObjs st (snd e)) = fst e \<and>
        s_messages (sessionObjs st (snd e)) < nextAddr st \<and>
        (\<forall>m \<in> set (arrayObjs st (s_messages (sessionObjs st (snd e)))). m < nextAddr st))"

text \<open>
  The title rule in the words of the specification: the words of a message are its maximal
  runs of characters that are not whitespace; the title of a message of more than five words
  is its first five words with one space between them, followed by three dots.
\<close>

function specWords :: "string \<Rightarrow> string list" where
  "specWords s =
     (case dropWhile isWhiteSpace s of
        [] \<Rightarrow> []
      | c # cs \<Rightarrow>
          (c # takeWhile (\<lambda>x. \<not> isWhiteSpace x) cs) #
          specWords (dropWhile (\<lambda>x. \<not> isWhiteSpace x) cs))"
  by pat_completeness auto
termination
proof (relation "measure length")
  show "wf (measure length)" by simp
next
  fix s :: string and c cs
  assume d: "dropWhile isWhiteSpace s = c # cs"
  have "length (dropWhile (\<lambda>x. \<not> isWhiteSpace x) cs) \<le> length cs"
    by (rule length_dropWhile_le)
  also have "length cs < length (c # cs)" by simp
  also have "length (c # cs) \<le> length s"
    unfolding d [symmetric] by (rule length_dropWhile_le)
  finally show "(dropWhile (\<lambda>x. \<not> isWhiteSpace x) cs, s) \<in> measure length" by simp
qed

declare specWords.simps [simp del]

definition specTitle :: "string \<Rightarrow> string" where
  "specTitle m =
     (if length (specWords m) > 5
      then specWords m ! 0 @ '' '' @ specWords m ! 1 @ '' '' @ specWords m ! 2 @ '' '' @
           specWords m ! 3 @ '' '' @ specWords m ! 4 @ ''...''
      else m)"

text \<open>What one chunk contributes: the text of its delta, and its citations.\<close>

definition deltaText :: "Chunk \<Rightarrow> string" where
  "deltaText chunk = (case deltaContent chunk of None \<Rightarrow> [] | Some c \<Rightarrow> c)"

definition chunkCitations :: "Chunk \<Rightarrow> string list" where
  "chunkCitations chunk = (case ch_citations chunk of None \<Rightarrow> [] | Some cs \<Rightarrow> cs)"

text \<open>The position at which an element first occurs in a list.\<close>

definition firstIndex :: "'a list \<Rightarrow> 'a \<Rightarrow> nat" where
  "firstIndex xs x = length (takeWhile (\<lambda>y. y \<noteq> x) xs)"

text \<open>
  The messages that \<^verbatim>\<open>sendMessage\<close> creates, from the state in which it starts on the
  session: the user message, the placeholder, and the error message of the \<^verbatim>\<open>catch\<close> block.
\<close>

definition userMessageOf :: "string \<Rightarrow> SearchMode \<Rightarrow> ChatManager \<Rightarrow> ChatMessage" where
  "userMessageOf content mode st =
     \<lparr>m_id = uuidSource st (uuidCalls st), m_role = User, m_content = content,
      m_timestamp = clock st (clockCalls st), m_citations = None, m_mode = Some mode,
      m_streaming = None\<rparr>"

definition placeholderOf :: "ChatManager \<Rightarrow> ChatMessage" where
  "placeholderOf st =
     \<lparr>m_id = uuidSource st (Suc (uuidCalls st)), m_role = Assistant, m_content = [],
      m_timestamp = clock st (Suc (Suc (clockCalls st))), m_citations = None, m_mode = None,
      m_streaming = Some True\<rparr>"

definition errorMessageOf :: "thrown \<Rightarrow> ChatManager \<Rightarrow> ChatMessage" where
  "errorMessageOf e st =
     \<lparr>m_id = uuidSource st (Suc (Suc (uuidCalls st))), m_role = Assistant,
      m_content = errorText e, m_timestamp = clock st (Suc (Suc (Suc (clockCalls st)))),
      m_citations = None, m_mode = None, m_streaming = None\<rparr>"

text \<open>
  A concrete manager for the examples: a first start (empty blob), ids \<^verbatim>\<open>u\<close>, \<^verbatim>\<open>uu\<close>, ...
  and a clock that advances by one at each reading.
\<close>

definition demoUuid :: "nat \<Rightarrow> string" where
  "demoUuid n = replicate (Suc n) CHR ''u''"

definition demoClock :: "nat \<Rightarrow> date" where
  "demoClock n = 1000 + int n"

definition demoManager :: ChatManager where
  "demoManager = newChatManager [] demoUuid demoClock"

definition demoOne :: ChatManager where
  "demoOne = snd (createNewSession None General demoManager)"

definition demoTwo :: ChatManager where
  "demoTwo = snd (createNewSession None Debug demoOne)"

definition demoStreaming :: ChatManager where
  "demoStreaming = snd (sendMessage_begin ''first question'' General demoManager)"

definition storeView ::
  "ChatManager \<Rightarrow> (string \<times> ChatMessage list ChatSession) list \<times> string option" where
  "storeView st = (map (\<lambda>e. (fst e, snapshot st (snd e))) (sessions st), currentSessionId st)"

text \<open>
  Loading, message by message: the stored messages that pass the filter of \<^verbatim>\<open>loadSessions\<close>, and
  how a loaded message relates to the stored one it comes from.
\<close>

definition keptMessage :: "StoredMessage \<Rightarrow> bool" where
  "keptMessage msg \<longleftrightarrow> truthy (sm_id msg) \<and> sm_role msg \<noteq> None \<and> truthy (sm_content msg)"

definition loadedFrom :: "StoredMessage \<Rightarrow> ChatMessage \<Rightarrow> bool" where
  "loadedFrom msg m \<longleftrightarrow>
     sm_id msg = Some (m_id m) \<and> sm_role msg = Some (m_role m) \<and>
     sm_content msg = Some (m_content m) \<and>
     (sm_timestamp msg = None \<or> sm_timestamp msg = Some (m_timestamp m)) \<and>
     m_citations m = Some (case sm_citations msg of None \<Rightarrow> [] | Some cs \<Rightarrow> cs) \<and>
     m_mode m = Some (case sm_mode msg of None \<Rightarrow> General | Some md \<Rightarrow> md) \<and>
     m_streaming m = Some (sm_streaming msg = Some True)"

text \<open>The stored messages of a stored session; none when the field is not an array.\<close>

definition storedMessages :: "StoredSession \<Rightarrow> StoredMessage list" where
  "storedMessages d = (case ss_messages d of None \<Rightarrow> [] | Some msgs \<Rightarrow> msgs)"

text \<open>
  What loading makes of a message and of a session that were saved: the optional fields of a
  message get their defaults, an empty title becomes \<^verbatim>\<open>Untitled\<close>.
\<close>

definition normaliseMessage :: "ChatMessage \<Rightarrow> ChatMessage" where
  "normaliseMessage m =
     m\<lparr>m_citations := Some (case m_citations m of None \<Rightarrow> [] | Some cs \<Rightarrow> cs),
       m_mode := Some (case m_mode m of None \<Rightarrow> General | Some md \<Rightarrow> md),
       m_streaming := Some (m_streaming m = Some True)\<rparr>"

definition normaliseSession :: "ChatMessage list ChatSession \<Rightarrow> ChatMessage list ChatSession" where
  "normaliseSession v =
     v\<lparr>s_title := orDefault (Some (s_title v)) ''Untitled'',
       s_messages := map normaliseMessage (s_messages v)\<rparr>"

text \<open>The example manager after a message whose stream ended without any content.\<close>

definition demoSilent :: ChatManager where
  "demoSilent = snd (sendMessage ''hello'' General [] EndOfStream demoManager)"

text \<open>
  The operations of the manager as values, each carried out to its end before the next one
  starts; \<open>Restart\<close> is a new manager over the blob that was persisted.
\<close>

datatype operation =
    CreateNewSession "string option" SearchMode
  | SendMessage string SearchMode "Chunk list" outcome
  | SwitchToSession string
  | DeleteSession string
  | ClearAllSessions
  | Restart

fun perform :: "operation \<Rightarrow> ChatManager \<Rightarrow> ChatManager" where
  "perform (CreateNewSession title mode) st = snd (createNewSession title mode st)"
| "perform (SendMessage content mode chunks out) st = snd (sendMessage content mode chunks out st)"
| "perform (SwitchToSession sessionId) st = snd (switchToSession sessionId st)"
| "perform (DeleteSession sessionId) st = deleteSession sessionId st"
| "perform ClearAllSessions st = clearAllSessions st"
| "perform Restart st =
     loadSessions (emptyManager (globalState st) (uuidSource st) (uuidCalls st) (clock st)
       (clockCalls st))"

text \<open>The number of messages with \<^verbatim>\<open>streaming = true\<close>.\<close>

definition streamingCount :: "ChatMessage list \<Rightarrow> nat" where
  "streamingCount ms = length (filter (\<lambda>m. m_streaming m = Some True) ms)"

text \<open>
  What holds between operations that run one at a time: the store is consistent, no message of
  a session in the store is streaming, none in the persisted blob is, and every notification
  fired so far showed a session with at most one streaming message.
\<close>

definition quiet :: "ChatManager \<Rightarrow> bool" where
  "quiet st \<longleftrightarrow> list_all (\<lambda>e. streamingCount (messagesOf st (snd e)) = 0) (sessions st)"

definition blobQuiet :: "StoredSession list \<Rightarrow> bool" where
  "blobQuiet blob \<longleftrightarrow>
     list_all (\<lambda>d. list_all (\<lambda>msg. sm_streaming msg \<noteq> Some True) (storedMessages d)) blob"

definition observedAtMostOne :: "ChatMessage list ChatSession option \<Rightarrow> bool" where
  "observedAtMostOne ev = (case ev of None \<Rightarrow> True | Some v \<Rightarrow> streamingCount (s_messages v) \<le> 1)"

definition sequentialInvariant :: "ChatManager \<Rightarrow> bool" where
  "sequentialInvariant st \<longleftrightarrow>
     consistent st \<and> quiet st \<and> blobQuiet (globalState st) \<and>
     list_all observedAtMostOne (fired st)"

text \<open>
  The states in which a call of \<^verbatim>\<open>sendMessage\<close> waits for the transport: the one after its
  first notification and the one after each chunk.
\<close>

fun chunkStates :: "Chunk list \<Rightarrow> Frame \<times> ChatManager \<Rightarrow> ChatManager list" where
  "chunkStates [] fs = [snd fs]"
| "chunkStates (chunk # chunks) fs = snd fs # chunkStates chunks (sendMessage_chunk chunk fs)"

text \<open>
  The observation points of a run of operations from a state: the states between the
  operations and, within a \<^verbatim>\<open>sendMessage\<close> that got to its stream, the states in which it waits.
\<close>

definition waitingStates :: "operation \<Rightarrow> ChatManager \<Rightarrow> ChatManager list" where
  "waitingStates opn st =
     (case opn of
        SendMessage content mode chunks out \<Rightarrow>
          (case sendMessage_begin content mode st of
             (Inl e, st1) \<Rightarrow> []
           | (Inr fr, st1) \<Rightarrow> chunkStates chunks (fr, st1))
      | _ \<Rightarrow> [])"

fun observationPoints :: "operation list \<Rightarrow> ChatManager \<Rightarrow> ChatManager list" where
  "observationPoints [] st = [st]"
| "observationPoints (opn # ops) st =
     st # waitingStates opn st @ observationPoints ops (perform opn st)"

text \<open>
  At an observation point: every session of the store has at most one streaming message, and
  so had the session shown by each notification fired so far.
\<close>

definition atMostOneStreaming :: "ChatManager \<Rightarrow> bool" where
  "atMostOneStreaming st \<longleftrightarrow>
     list_all (\<lambda>e. streamingCount (messagesOf st (snd e)) \<le> 1) (sessions st) \<and>
     list_all observedAtMostOne (fired st)"

text \<open>
  Two calls of \<^verbatim>\<open>sendMessage\<close> on the session of the example manager that overlap: the first
  call has begun (\<open>demoStreaming\<close>) and waits for its stream, the second call begins, then
  the first call receives the chunk \<^verbatim>\<open>Par\<close> and its stream fails.
\<close>

definition demoInterleaved :: ChatManager where
  "demoInterleaved =
     (let frA = projr (fst (sendMessage_begin ''first question'' General demoManager));
          stB = snd (sendMessage_begin ''second question'' General demoStreaming);
          (frA', st3) = sendMessage_chunk
                          \<lparr>ch_choices = Some [Some (Some ''Par'')], ch_citations = None\<rparr> (frA, stB)
      in sendMessage_catch (Error ''Perplexity server error. Please try again later.'')
           (f_session frA') st3)"

section \<open>Basic facts about the operations\<close>

lemmas prim_defs = uuidv4_def newDate_def allocMessage_def allocArray_def allocSession_def
  push_def writeSession_def writeMessage_def fire_def

lemma saveSessions_fields [simp]:
  "sessionObjs (saveSessions st) = sessionObjs st"
  "arrayObjs (saveSessions st) = arrayObjs st"
  "messageObjs (saveSessions st) = messageObjs st"
  "nextAddr (saveSessions st) = nextAddr st"
  "sessions (saveSessions st) = sessions st"
  "currentSessionId (saveSessions st) = currentSessionId st"
  "fired (saveSessions st) = fired st"
  "uuidSource (saveSessions st) = uuidSource st"
  "uuidCalls (saveSessions st) = uuidCalls st"
  "clock (saveSessions st) = clock st"
  "clockCalls (saveSessions st) = clockCalls st"
  by (simp_all add: saveSessions_def)

lemma fire_fields [simp]:
  "sessionObjs (fire ev st) = sessionObjs st"
  "arrayObjs (fire ev st) = arrayObjs st"
  "messageObjs (fire ev st) = messageObjs st"
  "nextAddr (fire ev st) = nextAddr st"
  "sessions (fire ev st) = sessions st"
  "currentSessionId (fire ev st) = currentSessionId st"
  "globalState (fire ev st) = globalState st"
  "uuidSource (fire ev st) = uuidSource st"
  "uuidCalls (fire ev st) = uuidCalls st"
  "clock (fire ev st) = clock st"
  "clockCalls (fire ev st) = clockCalls st"
  by (simp_all add: fire_def)

lemma systemMessages_nonempty: "systemMessages mode \<noteq> []"
  by (cases mode) (simp_all add: systemMessages_def)

lemma getSystemMessage_Some [simp]: "getSystemMessage mode = Some (systemMessages mode)"
  by (simp add: getSystemMessage_def systemMessages_nonempty)

lemma consistentD:
  assumes "consistent st" "(k, a) \<in> set (sessions st)"
  shows "a < nextAddr st" "s_id (sessionObjs st a) = k"
    "s_messages (sessionObjs st a) < nextAddr st"
    "\<forall>m \<in> set (arrayObjs st (s_messages (sessionObjs st a))). m < nextAddr st"
  using assms unfolding consistent_def by force+

lemma createNewSession_current:
  "currentSessionObj (snd (createNewSession title mode st)) = Some (Suc (nextAddr st))"
  by (simp add: createNewSession_def newSession_def addSystemMessage_def prim_defs Let_def split_def
      currentSessionObj_def AList.update_conv')

lemma createNewSession_array:
  "arrayObjs (snd (createNewSession title mode st))
     (s_messages (sessionObjs (snd (createNewSession title mode st)) (Suc (nextAddr st)))) =
   [Suc (Suc (nextAddr st))]"
  "nextAddr (snd (createNewSession title mode st)) = Suc (Suc (Suc (nextAddr st)))"
  by (simp_all add: createNewSession_def newSession_def addSystemMessage_def prim_defs Let_def split_def)

lemma createNewSession_messages:
  "messagesOf (snd (createNewSession title mode st)) (Suc (nextAddr st)) =
     [\<lparr>m_id = uuidSource st (Suc (uuidCalls st)), m_role = System,
       m_content = systemMessages mode, m_timestamp = clock st (Suc (Suc (clockCalls st))),
       m_citations = None, m_mode = None, m_streaming = None\<rparr>]"
  by (simp add: createNewSession_def newSession_def addSystemMessage_def prim_defs Let_def split_def messagesOf_def)

lemma ensureSession_bound:
  assumes "consistent st" "currentSessionObj (ensureSession mode st) = Some session"
  shows "\<forall>m \<in> set (arrayObjs (ensureSession mode st)
            (s_messages (sessionObjs (ensureSession mode st) session))).
          m < nextAddr (ensureSession mode st)"
proof (cases "truthy (currentSessionId st)")
  case True
  then have e: "ensureSession mode st = st" by (simp add: ensureSession_def)
  with assms(2) obtain k where "(k, session) \<in> set (sessions st)"
    by (auto simp: currentSessionObj_def split: option.splits dest: map_of_SomeD)
  with assms(1) show ?thesis unfolding e by (rule consistentD(4))
next
  case False
  then have e: "ensureSession mode st = snd (createNewSession (Some ''New Chat'') mode st)"
    by (simp add: ensureSession_def)
  with assms(2) have "session = Suc (nextAddr st)"
    by (simp add: createNewSession_current)
  then show ?thesis unfolding e by (simp add: createNewSession_array)
qed

lemma sendMessage_chunk_frame:
  assumes "sendMessage_chunk chunk (fr, st) = (fr', st')"
  shows "f_session fr' = f_session fr" "f_assistantMessage fr' = f_assistantMessage fr"
    "f_apiMessages fr' = f_apiMessages fr"
    "f_fullContent fr' = f_fullContent fr @ deltaText chunk"
    "f_citations fr' = f_citations fr @ chunkCitations chunk"
    "sessionObjs st' = sessionObjs st" "arrayObjs st' = arrayObjs st"
    "nextAddr st' = nextAddr st" "sessions st' = sessions st"
    "currentSessionId st' = currentSessionId st" "globalState st' = globalState st"
    "uuidSource st' = uuidSource st" "uuidCalls st' = uuidCalls st"
    "clock st' = clock st" "clockCalls st' = clockCalls st"
  using assms
  by (auto simp: sendMessage_chunk_def deltaText_def chunkCitations_def truthy_def orDefault_def
      writeMessage_def Let_def split: option.splits if_splits)

lemma message_content_same: "m_content m = c \<Longrightarrow> m\<lparr>m_content := c\<rparr> = m"
  by (cases m) simp

lemma sendMessage_chunk_message:
  assumes "sendMessage_chunk chunk (fr, st) = (fr', st')"
    and "m_content (messageObjs st (f_assistantMessage fr)) = f_fullContent fr"
    and "m_streaming (messageObjs st (f_assistantMessage fr)) = Some True"
  shows "messageObjs st' = (messageObjs st)(f_assistantMessage fr :=
           (messageObjs st (f_assistantMessage fr))\<lparr>m_content := f_fullContent fr'\<rparr>)"
proof (cases "truthy (deltaContent chunk)")
  case True
  have "(messageObjs st (f_assistantMessage fr))\<lparr>m_content := c, m_streaming := Some True\<rparr> =
      (messageObjs st (f_assistantMessage fr))\<lparr>m_content := c\<rparr>" for c
    using assms(3) by (cases "messageObjs st (f_assistantMessage fr)") simp
  with True assms(1) show ?thesis
    by (auto simp: sendMessage_chunk_def writeMessage_def Let_def split: option.splits)
next
  case False
  with assms(1) have "st' = st" "f_fullContent fr' = f_fullContent fr"
    by (auto simp: sendMessage_chunk_def Let_def split: option.splits)
  with assms(2) show ?thesis by (simp add: message_content_same)
qed

lemma fold_chunk_frame_all:
  assumes "fold sendMessage_chunk chunks (fr, st) = (fr', st')"
  shows "f_session fr' = f_session fr \<and> f_assistantMessage fr' = f_assistantMessage fr \<and>
    f_apiMessages fr' = f_apiMessages fr \<and>
    f_fullContent fr' = f_fullContent fr @ concat (map deltaText chunks) \<and>
    f_citations fr' = f_citations fr @ concat (map chunkCitations chunks) \<and>
    sessionObjs st' = sessionObjs st \<and> arrayObjs st' = arrayObjs st \<and>
    nextAddr st' = nextAddr st \<and> sessions st' = sessions st \<and>
    currentSessionId st' = currentSessionId st \<and> globalState st' = globalState st \<and>
    uuidSource st' = uuidSource st \<and> uuidCalls st' = uuidCalls st \<and>
    clock st' = clock st \<and> clockCalls st' = clockCalls st"
  using assms
proof (induction chunks arbitrary: fr st)
  case Nil
  then show ?case by simp
next
  case (Cons c cs)
  obtain fr1 st1 where step: "sendMessage_chunk c (fr, st) = (fr1, st1)"
    by (cases "sendMessage_chunk c (fr, st)")
  with Cons.prems have rest: "fold sendMessage_chunk cs (fr1, st1) = (fr', st')" by simp
  show ?case
    using Cons.IH [OF rest] sendMessage_chunk_frame [OF step] by simp
qed

lemma fold_chunk_frame:
  assumes "fold sendMessage_chunk chunks (fr, st) = (fr', st')"
  shows "f_session fr' = f_session fr" "f_assistantMessage fr' = f_assistantMessage fr"
    "f_apiMessages fr' = f_apiMessages fr"
    "f_fullContent fr' = f_fullContent fr @ concat (map deltaText chunks)"
    "f_citations fr' = f_citations fr @ concat (map chunkCitations chunks)"
    "sessionObjs st' = sessionObjs st" "arrayObjs st' = arrayObjs st"
    "nextAddr st' = nextAddr st" "sessions st' = sessions st"
    "currentSessionId st' = currentSessionId st" "globalState st' = globalState st"
    "uuidSource st' = uuidSource st" "uuidCalls st' = uuidCalls st"
    "clock st' = clock st" "clockCalls st' = clockCalls st"
  using fold_chunk_frame_all [OF assms] by simp_all

lemma fold_chunk_message:
  assumes "fold sendMessage_chunk chunks (fr, st) = (fr', st')"
    and "m_content (messageObjs st (f_assistantMessage fr)) = f_fullContent fr"
    and "m_streaming (messageObjs st (f_assistantMessage fr)) = Some True"
  shows "messageObjs st' = (messageObjs st)(f_assistantMessage fr :=
           (messageObjs st (f_assistantMessage fr))\<lparr>m_content := f_fullContent fr'\<rparr>)"
  using assms
proof (induction chunks arbitrary: fr st)
  case Nil
  then show ?case by (simp add: message_content_same)
next
  case (Cons c cs)
  obtain fr1 st1 where step: "sendMessage_chunk c (fr, st) = (fr1, st1)"
    by (cases "sendMessage_chunk c (fr, st)")
  with Cons.prems have rest: "fold sendMessage_chunk cs (fr1, st1) = (fr', st')" by simp
  note s = sendMessage_chunk_frame [OF step]
  note m = sendMessage_chunk_message [OF step Cons.prems(2,3)]
  have "messageObjs st' = (messageObjs st1)(f_assistantMessage fr1 :=
           (messageObjs st1 (f_assistantMessage fr1))\<lparr>m_content := f_fullContent fr'\<rparr>)"
    using rest by (rule Cons.IH) (simp_all add: m s Cons.prems)
  then show ?case by (simp add: m s)
qed

lemma map_fresh_upd: "\<forall>m \<in> set xs. m < (n::nat) \<Longrightarrow> map (f(n := v)) xs = map f xs"
  by (induction xs) auto

lemma updateTitle_fields [simp]:
  "arrayObjs (updateTitle content session st) = arrayObjs st"
  "messageObjs (updateTitle content session st) = messageObjs st"
  "nextAddr (updateTitle content session st) = nextAddr st"
  "sessions (updateTitle content session st) = sessions st"
  "currentSessionId (updateTitle content session st) = currentSessionId st"
  "globalState (updateTitle content session st) = globalState st"
  "fired (updateTitle content session st) = fired st"
  "uuidSource (updateTitle content session st) = uuidSource st"
  "uuidCalls (updateTitle content session st) = uuidCalls st"
  "clock (updateTitle content session st) = clock st"
  "clockCalls (updateTitle content session st) = clockCalls st"
  "s_messages (sessionObjs (updateTitle content session st) a) = s_messages (sessionObjs st a)"
  "s_id (sessionObjs (updateTitle content session st) a) = s_id (sessionObjs st a)"
  "s_mode (sessionObjs (updateTitle content session st) a) = s_mode (sessionObjs st a)"
  "s_createdAt (sessionObjs (updateTitle content session st) a) = s_createdAt (sessionObjs st a)"
  "s_updatedAt (sessionObjs (updateTitle content session st) a) = s_updatedAt (sessionObjs st a)"
  by (simp_all add: updateTitle_def writeSession_def)

lemma sendMessage_begin_effect:
  assumes "currentSessionObj (ensureSession mode st) = Some session"
  shows "\<exists>api. fst (sendMessage_begin content mode st) =
           Inr \<lparr>f_session = session, f_apiMessages = api,
                f_assistantMessage = Suc (nextAddr (ensureSession mode st)),
                f_fullContent = [], f_citations = []\<rparr>"
    and "messageObjs (snd (sendMessage_begin content mode st)) =
           (messageObjs (ensureSession mode st))
             (nextAddr (ensureSession mode st) := userMessageOf content mode (ensureSession mode st),
              Suc (nextAddr (ensureSession mode st)) := placeholderOf (ensureSession mode st))"
    and "arrayObjs (snd (sendMessage_begin content mode st)) =
           (arrayObjs (ensureSession mode st))
             (s_messages (sessionObjs (ensureSession mode st) session) :=
                arrayObjs (ensureSession mode st)
                  (s_messages (sessionObjs (ensureSession mode st) session)) @
                [nextAddr (ensureSession mode st), Suc (nextAddr (ensureSession mode st))])"
    and "s_messages (sessionObjs (snd (sendMessage_begin content mode st)) a) =
           s_messages (sessionObjs (ensureSession mode st) a)"
    and "s_id (sessionObjs (snd (sendMessage_begin content mode st)) a) =
           s_id (sessionObjs (ensureSession mode st) a)"
    and "nextAddr (snd (sendMessage_begin content mode st)) =
           Suc (Suc (nextAddr (ensureSession mode st)))"
    and "sessions (snd (sendMessage_begin content mode st)) = sessions (ensureSession mode st)"
    and "currentSessionId (snd (sendMessage_begin content mode st)) =
           currentSessionId (ensureSession mode st)"
    and "globalState (snd (sendMessage_begin content mode st)) = globalState (ensureSession mode st)"
    and "uuidSource (snd (sendMessage_begin content mode st)) = uuidSource (ensureSession mode st)"
    and "uuidCalls (snd (sendMessage_begin content mode st)) =
           Suc (Suc (uuidCalls (ensureSession mode st)))"
    and "clock (snd (sendMessage_begin content mode st)) = clock (ensureSession mode st)"
    and "clockCalls (snd (sendMessage_begin content mode st)) =
           Suc (Suc (Suc (clockCalls (ensureSession mode st))))"
  using assms
  by (simp_all add: sendMessage_begin_def addUserMessage_def pushUserMessage_def addPlaceholder_def
      prim_defs Let_def split_def userMessageOf_def placeholderOf_def fun_upd_twist)

lemma sendMessage_end_effect:
  "fst (sendMessage_end fr st) = f_assistantMessage fr"
  "messageObjs (snd (sendMessage_end fr st)) =
     (messageObjs st)(f_assistantMessage fr :=
        (messageObjs st (f_assistantMessage fr))
          \<lparr>m_content := f_fullContent fr,
           m_citations := (if f_citations fr = [] then None
                           else Some (arrayFromSet (f_citations fr))),
           m_streaming := Some False\<rparr>)"
  "arrayObjs (snd (sendMessage_end fr st)) = arrayObjs st"
  "s_messages (sessionObjs (snd (sendMessage_end fr st)) a) = s_messages (sessionObjs st a)"
  "s_id (sessionObjs (snd (sendMessage_end fr st)) a) = s_id (sessionObjs st a)"
  "s_title (sessionObjs (snd (sendMessage_end fr st)) a) = s_title (sessionObjs st a)"
  "nextAddr (snd (sendMessage_end fr st)) = nextAddr st"
  "sessions (snd (sendMessage_end fr st)) = sessions st"
  "currentSessionId (snd (sendMessage_end fr st)) = currentSessionId st"
  by (simp_all add: sendMessage_end_def prim_defs Let_def split_def)

lemma sendMessage_unfold:
  assumes "sendMessage_begin content mode st = (Inr fr, st1)"
    and "fold sendMessage_chunk chunks (fr, st1) = (fr2, st2)"
  shows "sendMessage content mode chunks EndOfStream st =
           (Inr (fst (sendMessage_end fr2 st2)), snd (sendMessage_end fr2 st2))"
    and "sendMessage content mode chunks (Failure e) st =
           (Inl e, sendMessage_catch e (f_session fr2) st2)"
  using assms by (simp_all add: sendMessage_def split_def Let_def)

lemma firstIndex_less: "y \<in> set xs \<Longrightarrow> length (takeWhile (\<lambda>z. z \<noteq> y) xs) < length xs"
  by (induction xs) auto

lemma arrayFromSet_inv:
  assumes "set acc = set pre" "distinct acc"
    "sorted_wrt (\<lambda>u v. firstIndex (pre @ xs) u < firstIndex (pre @ xs) v) acc"
  shows "set (foldl (\<lambda>acc x. if x \<in> set acc then acc else acc @ [x]) acc xs) = set (pre @ xs) \<and>
    distinct (foldl (\<lambda>acc x. if x \<in> set acc then acc else acc @ [x]) acc xs) \<and>
    sorted_wrt (\<lambda>u v. firstIndex (pre @ xs) u < firstIndex (pre @ xs) v)
      (foldl (\<lambda>acc x. if x \<in> set acc then acc else acc @ [x]) acc xs)"
  using assms
proof (induction xs arbitrary: acc pre)
  case Nil
  then show ?case by simp
next
  case (Cons x xs)
  let ?all = "pre @ x # xs"
  show ?case
  proof (cases "x \<in> set acc")
    case True
    have "set acc = set (pre @ [x])" using True Cons.prems(1) by auto
    from Cons.IH [OF this Cons.prems(2)] Cons.prems(3) True show ?thesis by simp
  next
    case False
    have s: "set (acc @ [x]) = set (pre @ [x])" using Cons.prems(1) by auto
    have d: "distinct (acc @ [x])" using False Cons.prems(2) by simp
    have "takeWhile (\<lambda>z. z \<noteq> x) ?all = pre @ takeWhile (\<lambda>z. z \<noteq> x) (x # xs)"
      using False Cons.prems(1) by (intro takeWhile_append2) auto
    then have fx: "firstIndex ?all x = length pre"
      by (simp add: firstIndex_def)
    have fy: "firstIndex ?all y < length pre" if "y \<in> set acc" for y
    proof -
      from that Cons.prems(1) have "y \<in> set pre" by simp
      then have "takeWhile (\<lambda>z. z \<noteq> y) ?all = takeWhile (\<lambda>z. z \<noteq> y) pre"
        by (simp add: takeWhile_append1)
      moreover have "length (takeWhile (\<lambda>z. z \<noteq> y) pre) < length pre"
        using \<open>y \<in> set pre\<close> by (rule firstIndex_less)
      ultimately show ?thesis by (simp add: firstIndex_def)
    qed
    have o: "sorted_wrt (\<lambda>u v. firstIndex ((pre @ [x]) @ xs) u < firstIndex ((pre @ [x]) @ xs) v)
        (acc @ [x])"
      using Cons.prems(3) fx fy by (simp add: sorted_wrt_append)
    from Cons.IH [OF s d o] False show ?thesis by simp
  qed
qed

lemma arrayFromSet_spec:
  "set (arrayFromSet xs) = set xs \<and> distinct (arrayFromSet xs) \<and>
   sorted_wrt (\<lambda>u v. firstIndex xs u < firstIndex xs v) (arrayFromSet xs)"
  using arrayFromSet_inv [of "[]" "[]" xs] by (simp add: arrayFromSet_def)

lemma specWords_dropWhile: "specWords (dropWhile isWhiteSpace s) = specWords s"
  by (subst (1 2) specWords.simps) (simp add: dropWhile_idem)

lemma specWords_all_ws:
  assumes "\<forall>c \<in> set s. isWhiteSpace c"
  shows "specWords s = []"
proof -
  have "dropWhile isWhiteSpace s = []" using assms by simp
  then show ?thesis by (subst specWords.simps) (simp only: list.case)
qed

lemma specWords_append_ws:
  "\<forall>c \<in> set w. isWhiteSpace c \<Longrightarrow> specWords (v @ w) = specWords v"
proof (induction v rule: specWords.induct)
  case (1 s)
  show ?case
  proof (cases "dropWhile isWhiteSpace s")
    case Nil
    then have all: "\<forall>c \<in> set s. isWhiteSpace c"
      by (simp add: dropWhile_eq_Nil_conv)
    with 1(2) have "\<forall>c \<in> set (s @ w). isWhiteSpace c" by auto
    with all show ?thesis
      by (simp only: specWords_all_ws)
  next
    case (Cons c cs)
    then have ex: "\<exists>x \<in> set s. \<not> isWhiteSpace x"
      by (metis dropWhile_eq_Nil_conv list.distinct(1))
    then obtain y where y: "y \<in> set s" "\<not> isWhiteSpace y" by auto
    have dw: "dropWhile isWhiteSpace (s @ w) = c # (cs @ w)"
      using dropWhile_append1 [of y s isWhiteSpace w] y Cons by simp
    show ?thesis
    proof (cases "\<exists>x \<in> set cs. isWhiteSpace x")
      case True
      then obtain x where x: "x \<in> set cs" "\<not> (\<not> isWhiteSpace x)" by auto
      have t: "takeWhile (\<lambda>x. \<not> isWhiteSpace x) (cs @ w) = takeWhile (\<lambda>x. \<not> isWhiteSpace x) cs"
        using takeWhile_append1 [of x cs "\<lambda>x. \<not> isWhiteSpace x" w] x by simp
      have d: "dropWhile (\<lambda>x. \<not> isWhiteSpace x) (cs @ w) = dropWhile (\<lambda>x. \<not> isWhiteSpace x) cs @ w"
        using dropWhile_append1 [of x cs "\<lambda>x. \<not> isWhiteSpace x" w] x by simp
      note ih = 1(1) [OF Cons 1(2)]
      show ?thesis
        by (subst (1 2) specWords.simps) (simp only: dw Cons list.case t d ih)
    next
      case False
      then have nw: "\<And>x. x \<in> set cs \<Longrightarrow> \<not> isWhiteSpace x" by auto
      have w1: "takeWhile (\<lambda>x. \<not> isWhiteSpace x) w = []"
        and w2: "dropWhile (\<lambda>x. \<not> isWhiteSpace x) w = w"
        using 1(2) by (cases w; simp)+
      have t: "takeWhile (\<lambda>x. \<not> isWhiteSpace x) (cs @ w) = cs"
        using takeWhile_append2 [of cs "\<lambda>x. \<not> isWhiteSpace x" w] nw w1 by simp
      have t': "takeWhile (\<lambda>x. \<not> isWhiteSpace x) cs = cs"
        using nw by (simp add: takeWhile_eq_all_conv)
      have d: "dropWhile (\<lambda>x. \<not> isWhiteSpace x) (cs @ w) = w"
        using dropWhile_append2 [of cs "\<lambda>x. \<not> isWhiteSpace x" w] nw w2 by simp
      have d': "dropWhile (\<lambda>x. \<not> isWhiteSpace x) cs = []"
        using nw by simp
      have sw: "specWords w = []"
        using 1(2) by (rule specWords_all_ws)
      have sn: "specWords [] = []"
        by (rule specWords_all_ws) simp
      show ?thesis
        by (subst (1 2) specWords.simps) (simp only: dw Cons list.case t t' d d' sw sn)
    qed
  qed
qed

lemma specWords_trim: "specWords (trim s) = specWords s"
proof -
  let ?u = "dropWhile isWhiteSpace s"
  have "?u = trim s @ rev (takeWhile isWhiteSpace (rev ?u))"
    unfolding trim_def by (metis rev_append rev_rev_ident takeWhile_dropWhile_id)
  moreover have "\<forall>c \<in> set (rev (takeWhile isWhiteSpace (rev ?u))). isWhiteSpace c"
    by (auto dest: set_takeWhileD)
  ultimately have "specWords ?u = specWords (trim s)"
    using specWords_append_ws by metis
  then show ?thesis by (simp add: specWords_dropWhile)
qed

lemma splitWhitespace_specWords:
  "u \<noteq> [] \<Longrightarrow> \<not> isWhiteSpace (hd u) \<Longrightarrow> \<not> isWhiteSpace (last u) \<Longrightarrow>
   splitWhitespace u = specWords u"
proof (induction u rule: splitWhitespace.induct)
  case (1 s)
  from 1(2) obtain c cs where s: "s = c # cs" by (cases s) auto
  with 1(3) have c: "\<not> isWhiteSpace c" by simp
  have sw: "specWords s = (c # takeWhile (\<lambda>x. \<not> isWhiteSpace x) cs) #
      specWords (dropWhile (\<lambda>x. \<not> isWhiteSpace x) cs)"
    using c s by (subst specWords.simps) simp
  show ?case
  proof (cases "dropWhile (\<lambda>x. \<not> isWhiteSpace x) cs")
    case Nil
    moreover have "specWords [] = []" by (rule specWords_all_ws) simp
    ultimately show ?thesis
      using sw c s by (subst splitWhitespace.simps) (simp del: dropWhile_eq_Nil_conv)
  next
    case (Cons x rest)
    let ?u = "dropWhile isWhiteSpace rest"
    have d: "dropWhile (\<lambda>x. \<not> isWhiteSpace x) s = x # rest"
      using Cons c s by simp
    have x: "isWhiteSpace x"
      using Cons by (metis hd_dropWhile list.distinct(1) list.sel(1))
    have "takeWhile (\<lambda>x. \<not> isWhiteSpace x) cs @ x # rest = cs"
      unfolding Cons [symmetric] by (rule takeWhile_dropWhile_id)
    then have "last cs = last (x # rest)"
      by (metis last_appendR list.distinct(1))
    moreover have "cs \<noteq> []" using Cons by auto
    ultimately have last_s: "last s = last (x # rest)"
      using s by simp
    with 1(4) x have rest_ne: "rest \<noteq> []" by auto
    with last_s have lr: "last s = last rest" by simp
    have "last rest \<in> set rest" using rest_ne by (rule last_in_set)
    then have ex: "\<exists>y \<in> set rest. \<not> isWhiteSpace y"
      using lr 1(4) by auto
    then have une: "?u \<noteq> []" by (simp add: dropWhile_eq_Nil_conv)
    then have hd: "\<not> isWhiteSpace (hd ?u)" by (rule hd_dropWhile)
    have "last (takeWhile isWhiteSpace rest @ ?u) = last ?u"
      using une by (rule last_appendR)
    then have "last rest = last ?u" by simp
    with lr 1(4) have la: "\<not> isWhiteSpace (last ?u)" by simp
    have e: "specWords (x # rest) = specWords ?u"
      using specWords_dropWhile [of "x # rest"] x by simp
    have "splitWhitespace ?u = specWords ?u"
      using 1(1) [OF d une hd la] .
    with e have "splitWhitespace ?u = specWords (x # rest)" by simp
    then show ?thesis
      using sw c s d Cons by (subst splitWhitespace.simps) (simp del: dropWhile_eq_Nil_conv)
  qed
qed

lemma trim_ends:
  assumes "trim s \<noteq> []"
  shows "\<not> isWhiteSpace (hd (trim s))" and "\<not> isWhiteSpace (last (trim s))"
proof -
  let ?u = "dropWhile isWhiteSpace s"
  let ?r = "dropWhile isWhiteSpace (rev ?u)"
  from assms have r: "?r \<noteq> []" by (simp add: trim_def)
  then have "\<not> isWhiteSpace (hd ?r)" by (rule hd_dropWhile)
  then show "\<not> isWhiteSpace (last (trim s))"
    using r by (simp add: trim_def last_rev)
  from r have u: "?u \<noteq> []" by (auto dest: set_dropWhileD)
  have "?u = trim s @ rev (takeWhile isWhiteSpace (rev ?u))"
    unfolding trim_def by (metis rev_append rev_rev_ident takeWhile_dropWhile_id)
  then have "hd ?u = hd (trim s)" using assms by (metis hd_append2)
  moreover have "\<not> isWhiteSpace (hd ?u)" using u by (rule hd_dropWhile)
  ultimately show "\<not> isWhiteSpace (hd (trim s))" by simp
qed

lemma five_words: "5 < length ws \<Longrightarrow> \<exists>a b c d e r. ws = a # b # c # d # e # r"
  by (cases ws; simp; cases "tl ws"; simp; cases "tl (tl ws)"; simp; cases "tl (tl (tl ws))"; simp;
      cases "tl (tl (tl (tl ws)))"; simp)

lemma join_take5:
  assumes "5 < length ws"
  shows "join sep (take 5 ws) = ws ! 0 @ sep @ ws ! 1 @ sep @ ws ! 2 @ sep @ ws ! 3 @ sep @ ws ! 4"
proof -
  from five_words [OF assms] obtain a b c d e r where "ws = a # b # c # d # e # r" by blast
  then show ?thesis by (simp add: eval_nat_numeral)
qed

lemma generateSessionTitle_spec: "generateSessionTitle m = specTitle m"
proof (cases "trim m = []")
  case True
  have "specWords m = []"
    using specWords_trim [of m] True specWords_all_ws [of "[]"] by simp
  moreover have "splitWhitespace [] = [[]]" by (subst splitWhitespace.simps) simp
  ultimately show ?thesis
    using True by (simp add: generateSessionTitle_def specTitle_def)
next
  case False
  then have "splitWhitespace (trim m) = specWords (trim m)"
    using trim_ends [OF False] by (intro splitWhitespace_specWords)
  then show ?thesis
    by (simp add: generateSessionTitle_def specTitle_def specWords_trim Let_def not_le
        not_less join_take5)
qed

lemma sendMessage_catch_title [simp]:
  "s_title (sessionObjs (sendMessage_catch e session st) a) = s_title (sessionObjs st a)"
  by (simp add: sendMessage_catch_def prim_defs Let_def split_def)

lemma addPlaceholder_sessionObjs [simp]:
  "sessionObjs (snd (addPlaceholder session st)) = sessionObjs st"
  by (simp add: addPlaceholder_def prim_defs Let_def split_def)

lemma pushUserMessage_messages:
  assumes "\<forall>m \<in> set (arrayObjs st (s_messages (sessionObjs st session))). m < nextAddr st"
  shows "messagesOf (pushUserMessage content mode session st) session =
     messagesOf st session @ [userMessageOf content mode st]"
  using assms
  by (simp add: pushUserMessage_def prim_defs messagesOf_def Let_def split_def map_fresh_upd userMessageOf_def)

lemma addUserMessage_title:
  assumes "\<forall>m \<in> set (arrayObjs st (s_messages (sessionObjs st session))). m < nextAddr st"
    and "\<forall>m \<in> set (messagesOf st session). m_role m \<noteq> User"
  shows "s_title (sessionObjs (addUserMessage content mode session st) session) =
     generateSessionTitle content"
proof -
  have "filter (\<lambda>m. m_role m = User) (messagesOf st session) = []"
    using assms(2) by (simp add: filter_empty_conv)
  then have "length (filter (\<lambda>m. m_role m = User)
      (messagesOf (pushUserMessage content mode session st) session)) = 1"
    by (simp add: pushUserMessage_messages [OF assms(1)] userMessageOf_def)
  then show ?thesis
    by (simp add: addUserMessage_def updateTitle_def writeSession_def)
qed

lemma sendMessage_title:
  assumes "consistent st" "currentSessionObj (ensureSession mode st) = Some session"
    "filter (\<lambda>m. m_role m = User) (messagesOf (ensureSession mode st) session) = []"
  shows "s_title (sessionObjs (snd (sendMessage content mode chunks out st)) session) =
     generateSessionTitle content"
proof -
  let ?st0 = "ensureSession mode st"
  have nouser: "\<forall>m \<in> set (messagesOf ?st0 session). m_role m \<noteq> User"
    using assms(3) by (simp add: filter_empty_conv)
  obtain fr st1 where b: "sendMessage_begin content mode st = (Inr fr, st1)"
    and fs: "f_session fr = session"
    using sendMessage_begin_effect(1) [OF assms(2), of content]
    by (cases "sendMessage_begin content mode st") auto
  have t1: "s_title (sessionObjs st1 session) = generateSessionTitle content"
    using b assms(2) addUserMessage_title [OF ensureSession_bound [OF assms(1,2)] nouser]
    by (auto simp: sendMessage_begin_def Let_def split_def)
  obtain fr2 st2 where f: "fold sendMessage_chunk chunks (fr, st1) = (fr2, st2)"
    by (cases "fold sendMessage_chunk chunks (fr, st1)")
  note ff = fold_chunk_frame [OF f]
  show ?thesis
  proof (cases out)
    case EndOfStream
    then show ?thesis
      using sendMessage_unfold(1) [OF b f] t1 ff(6) by (simp add: sendMessage_end_effect)
  next
    case (Failure e)
    then show ?thesis
      using sendMessage_unfold(2) [OF b f] t1 ff(6) by simp
  qed
qed

lemma demoManager_eq: "demoManager = emptyManager [] demoUuid 0 demoClock 0"
  by (simp add: demoManager_def newChatManager_def loadSessions_def emptyManager_def
      getAllSessions_def)

lemma demo_consistent: "consistent demoManager"
  by (simp add: demoManager_eq emptyManager_def consistent_def)

lemma demo_current: "currentSessionObj (ensureSession mode demoManager) = Some 1"
  by (simp add: demoManager_eq ensureSession_def emptyManager_def truthy_def createNewSession_current)

lemma ex1: "generateSessionTitle ''Fix this bug in my sorting algorithm please'' = ''Fix this bug in my...''"
  by code_simp
lemma ex2: "generateSessionTitle ''Hi'' = ''Hi''"
  by code_simp
lemma ex3: "specWords ''Fix this bug in my sorting algorithm please'' =
    [''Fix'', ''this'', ''bug'', ''in'', ''my'', ''sorting'', ''algorithm'', ''please'']"
  by code_simp
lemma ex4: "specWords ''Hi'' = [''Hi'']"
  by code_simp

section \<open>Title derivation\<close>

text \<open>
  Claim C7. The title computed for a message is the message itself when it has at most five
  whitespace-separated words, and otherwise its first word, a space, its second word, a space,
  its third word, a space, its fourth word, a space, its fifth word and three dots. A call of
  \<^verbatim>\<open>sendMessage\<close> whose session has no user message yet sets the session's title to that
  value, however the stream goes on.
\<close>

theorem title_derivation:
  "generateSessionTitle content =
     (if 5 < length (specWords content)
      then specWords content ! 0 @ '' '' @ specWords content ! 1 @ '' '' @
           specWords content ! 2 @ '' '' @ specWords content ! 3 @ '' '' @
           specWords content ! 4 @ ''...''
      else content) \<and>
   (consistent st \<longrightarrow> currentSessionObj (ensureSession mode st) = Some session \<longrightarrow>
    filter (\<lambda>m. m_role m = User) (messagesOf (ensureSession mode st) session) = [] \<longrightarrow>
    s_title (sessionObjs (snd (sendMessage content mode chunks out st)) session) =
      generateSessionTitle content)"
  using generateSessionTitle_spec [of content] sendMessage_title [of st mode session content chunks out]
  by (simp add: specTitle_def)

theorem title_derivation_witness:
  "consistent demoManager \<and> currentSessionObj (ensureSession Debug demoManager) = Some 1 \<and>
   filter (\<lambda>m. m_role m = User) (messagesOf (ensureSession Debug demoManager) 1) = [] \<and>
   s_title (sessionObjs (snd (sendMessage ''Fix this bug in my sorting algorithm please'' Debug
      [] EndOfStream demoManager)) 1) = ''Fix this bug in my...'' \<and>
   s_title (sessionObjs (snd (sendMessage ''Hi'' Debug [] EndOfStream demoManager)) 1) = ''Hi'' \<and>
   specWords ''Fix this bug in my sorting algorithm please'' =
     [''Fix'', ''this'', ''bug'', ''in'', ''my'', ''sorting'', ''algorithm'', ''please''] \<and>
   specWords ''Hi'' = [''Hi'']"
proof -
  have m: "filter (\<lambda>m. m_role m = User) (messagesOf (ensureSession Debug demoManager) 1) = []"
    using createNewSession_messages [of "Some ''New Chat''" Debug demoManager]
    by (simp add: demoManager_eq ensureSession_def emptyManager_def truthy_def)
  show ?thesis
    using title_derivation [of "''Fix this bug in my sorting algorithm please''" demoManager Debug 1 "[]" EndOfStream]
      title_derivation [of "''Hi''" demoManager Debug 1 "[]" EndOfStream]
      demo_consistent demo_current [of Debug] m ex1 ex2 ex3 ex4
    by simp
qed

lemma sendMessage_begin_frame:
  assumes "currentSessionObj (ensureSession mode st) = Some session"
  obtains fr st1 where "sendMessage_begin content mode st = (Inr fr, st1)"
    "f_session fr = session" "f_assistantMessage fr = Suc (nextAddr (ensureSession mode st))"
    "f_fullContent fr = []" "f_citations fr = []"
proof -
  from sendMessage_begin_effect(1) [OF assms, of content]
  obtain api where "fst (sendMessage_begin content mode st) =
           Inr \<lparr>f_session = session, f_apiMessages = api,
                f_assistantMessage = Suc (nextAddr (ensureSession mode st)),
                f_fullContent = [], f_citations = []\<rparr>" by blast
  then have "sendMessage_begin content mode st =
      (Inr \<lparr>f_session = session, f_apiMessages = api,
                f_assistantMessage = Suc (nextAddr (ensureSession mode st)),
                f_fullContent = [], f_citations = []\<rparr>, snd (sendMessage_begin content mode st))"
    by (simp add: prod_eq_iff)
  then show thesis by (rule that) simp_all
qed

section \<open>Streaming accumulation\<close>

text \<open>
  Claim C5. When \<^verbatim>\<open>sendMessage\<close> finds its session, then for every finite sequence of chunks the
  content of the placeholder after any prefix of the stream is the concatenation, in order of
  receipt, of the delta texts received so far; one more chunk appends its delta text to what
  was there; and when the stream ends, the call returns the placeholder, now the last message
  of the session, with the concatenation of all delta texts as content and
  \<^verbatim>\<open>streaming = false\<close>.
\<close>

theorem streaming_accumulation:
  assumes "currentSessionObj (ensureSession mode st) = Some session"
  shows "\<exists>fr st1. sendMessage_begin content mode st = (Inr fr, st1) \<and>
     (\<forall>chunks c.
        m_content (messageObjs (snd (fold sendMessage_chunk chunks (fr, st1)))
           (f_assistantMessage fr)) = concat (map deltaText chunks) \<and>
        m_content (messageObjs (snd (fold sendMessage_chunk (chunks @ [c]) (fr, st1)))
           (f_assistantMessage fr)) =
        m_content (messageObjs (snd (fold sendMessage_chunk chunks (fr, st1)))
           (f_assistantMessage fr)) @ deltaText c) \<and>
     (\<forall>chunks. \<exists>st'.
        sendMessage content mode chunks EndOfStream st = (Inr (f_assistantMessage fr), st') \<and>
        m_content (messageObjs st' (f_assistantMessage fr)) = concat (map deltaText chunks) \<and>
        m_streaming (messageObjs st' (f_assistantMessage fr)) = Some False \<and>
        messagesOf st' session \<noteq> [] \<and>
        last (messagesOf st' session) = messageObjs st' (f_assistantMessage fr))"
proof -
  let ?st0 = "ensureSession mode st"
  let ?a = "Suc (nextAddr ?st0)"
  from assms obtain fr st1 where b: "sendMessage_begin content mode st = (Inr fr, st1)"
    and fr: "f_session fr = session" "f_assistantMessage fr = ?a" "f_fullContent fr = []"
    by (rule sendMessage_begin_frame)
  have st1: "st1 = snd (sendMessage_begin content mode st)" using b by simp
  note e = sendMessage_begin_effect [OF assms, of content, folded st1]
  have p: "messageObjs st1 ?a = placeholderOf ?st0" by (simp add: e(2))
  have acc: "messageObjs st2 = (messageObjs st1)(?a := (placeholderOf ?st0)\<lparr>m_content := concat (map deltaText chunks)\<rparr>)
      \<and> f_fullContent fr2 = concat (map deltaText chunks)"
    if "fold sendMessage_chunk chunks (fr, st1) = (fr2, st2)" for chunks fr2 st2
    using fold_chunk_message [OF that] fold_chunk_frame(4) [OF that] p fr
    by (simp add: placeholderOf_def)
  have content: "m_content (messageObjs (snd (fold sendMessage_chunk chunks (fr, st1))) ?a) =
      concat (map deltaText chunks)" for chunks
    using acc [of chunks "fst (fold sendMessage_chunk chunks (fr, st1))"
        "snd (fold sendMessage_chunk chunks (fr, st1))"] by simp
  have final: "\<exists>st'.
        sendMessage content mode chunks EndOfStream st = (Inr ?a, st') \<and>
        m_content (messageObjs st' ?a) = concat (map deltaText chunks) \<and>
        m_streaming (messageObjs st' ?a) = Some False \<and>
        messagesOf st' session \<noteq> [] \<and>
        last (messagesOf st' session) = messageObjs st' ?a" for chunks
  proof -
    obtain fr2 st2 where f: "fold sendMessage_chunk chunks (fr, st1) = (fr2, st2)"
      by (cases "fold sendMessage_chunk chunks (fr, st1)")
    note ff = fold_chunk_frame [OF f]
    let ?st' = "snd (sendMessage_end fr2 st2)"
    have "sendMessage content mode chunks EndOfStream st = (Inr ?a, ?st')"
      using sendMessage_unfold(1) [OF b f] ff(2) fr(2) by (simp add: sendMessage_end_effect)
    moreover have "m_content (messageObjs ?st' ?a) = concat (map deltaText chunks)"
      "m_streaming (messageObjs ?st' ?a) = Some False"
      using acc [OF f] ff(2) fr(2) by (simp_all add: sendMessage_end_effect)
    moreover have "arrayObjs ?st' (s_messages (sessionObjs ?st' session)) =
        arrayObjs ?st0 (s_messages (sessionObjs ?st0 session)) @ [nextAddr ?st0, ?a]"
      using ff(6,7) by (simp add: sendMessage_end_effect e)
    then have "messagesOf ?st' session \<noteq> []" "last (messagesOf ?st' session) = messageObjs ?st' ?a"
      by (simp_all add: messagesOf_def)
    ultimately show ?thesis by blast
  qed
  have grow: "m_content (messageObjs (snd (fold sendMessage_chunk (chunks @ [c]) (fr, st1))) ?a) =
      m_content (messageObjs (snd (fold sendMessage_chunk chunks (fr, st1))) ?a) @ deltaText c"
    for chunks c
    unfolding content by simp
  have "sendMessage_begin content mode st = (Inr fr, st1) \<and>
     (\<forall>chunks c.
        m_content (messageObjs (snd (fold sendMessage_chunk chunks (fr, st1)))
           (f_assistantMessage fr)) = concat (map deltaText chunks) \<and>
        m_content (messageObjs (snd (fold sendMessage_chunk (chunks @ [c]) (fr, st1)))
           (f_assistantMessage fr)) =
        m_content (messageObjs (snd (fold sendMessage_chunk chunks (fr, st1)))
           (f_assistantMessage fr)) @ deltaText c) \<and>
     (\<forall>chunks. \<exists>st'.
        sendMessage content mode chunks EndOfStream st = (Inr (f_assistantMessage fr), st') \<and>
        m_content (messageObjs st' (f_assistantMessage fr)) = concat (map deltaText chunks) \<and>
        m_streaming (messageObjs st' (f_assistantMessage fr)) = Some False \<and>
        messagesOf st' session \<noteq> [] \<and>
        last (messagesOf st' session) = messageObjs st' (f_assistantMessage fr))"
    unfolding fr(2) by (intro conjI allI) (rule b content grow final)+
  then show ?thesis by blast
qed

lemma demo_deltas:
  "concat (map deltaText
     [\<lparr>ch_choices = Some [Some (Some ''Hel'')], ch_citations = None\<rparr>,
      \<lparr>ch_choices = Some [Some (Some ''lo'')], ch_citations = None\<rparr>,
      \<lparr>ch_choices = Some [Some (Some '' world'')], ch_citations = None\<rparr>]) = ''Hello world''"
  by (simp add: deltaText_def deltaContent_def)

theorem streaming_accumulation_witness:
  "currentSessionObj (ensureSession General demoManager) = Some 1 \<and>
   (\<exists>a st'. sendMessage ''say hello'' General
       [\<lparr>ch_choices = Some [Some (Some ''Hel'')], ch_citations = None\<rparr>,
        \<lparr>ch_choices = Some [Some (Some ''lo'')], ch_citations = None\<rparr>,
        \<lparr>ch_choices = Some [Some (Some '' world'')], ch_citations = None\<rparr>]
       EndOfStream demoManager = (Inr a, st') \<and>
     m_content (messageObjs st' a) = ''Hello world'' \<and>
     m_streaming (messageObjs st' a) = Some False \<and>
     last (messagesOf st' 1) = messageObjs st' a)"
  using streaming_accumulation [OF demo_current [of General], of "''say hello''"] demo_current [of General]
  unfolding demo_deltas [symmetric]
  by blast

section \<open>Citations\<close>

text \<open>
  Claim C8. When the stream ends, the citations of the finalized assistant message are
  absent if no chunk carried a citation; otherwise they are the citation URLs received, each
  once, ordered by first occurrence.
\<close>

theorem citation_dedup:
  assumes "currentSessionObj (ensureSession mode st) = Some session"
  shows "\<exists>a st'. sendMessage content mode chunks EndOfStream st = (Inr a, st') \<and>
     (concat (map chunkCitations chunks) = [] \<longrightarrow> m_citations (messageObjs st' a) = None) \<and>
     (concat (map chunkCitations chunks) \<noteq> [] \<longrightarrow>
        (\<exists>cs. m_citations (messageObjs st' a) = Some cs \<and> distinct cs \<and>
           set cs = set (concat (map chunkCitations chunks)) \<and>
           sorted_wrt (\<lambda>u v. firstIndex (concat (map chunkCitations chunks)) u <
                              firstIndex (concat (map chunkCitations chunks)) v) cs))"
proof -
  from assms obtain fr st1 where b: "sendMessage_begin content mode st = (Inr fr, st1)"
    and fr: "f_citations fr = []"
    by (rule sendMessage_begin_frame)
  obtain fr2 st2 where f: "fold sendMessage_chunk chunks (fr, st1) = (fr2, st2)"
    by (cases "fold sendMessage_chunk chunks (fr, st1)")
  have c: "f_citations fr2 = concat (map chunkCitations chunks)"
    using fold_chunk_frame(5) [OF f] fr by simp
  let ?st' = "snd (sendMessage_end fr2 st2)"
  have "sendMessage content mode chunks EndOfStream st = (Inr (f_assistantMessage fr2), ?st')"
    using sendMessage_unfold(1) [OF b f] by (simp add: sendMessage_end_effect)
  moreover have "m_citations (messageObjs ?st' (f_assistantMessage fr2)) =
      (if concat (map chunkCitations chunks) = [] then None
       else Some (arrayFromSet (concat (map chunkCitations chunks))))"
    unfolding c [symmetric] by (simp add: sendMessage_end_effect)
  ultimately show ?thesis
    using arrayFromSet_spec [of "concat (map chunkCitations chunks)"]
    by (intro exI [of _ "f_assistantMessage fr2"] exI [of _ ?st']) simp
qed

lemma demo_citations:
  "concat (map chunkCitations
     [\<lparr>ch_choices = None, ch_citations = Some [''a.com'', ''b.com'']\<rparr>,
      \<lparr>ch_choices = None, ch_citations = Some [''a.com'']\<rparr>]) = [''a.com'', ''b.com'', ''a.com'']"
  by (simp add: chunkCitations_def)

lemma demo_citations_unique:
  assumes "distinct cs" "set cs = {''a.com'', ''b.com''}"
    "sorted_wrt (\<lambda>u v. firstIndex [''a.com'', ''b.com'', ''a.com''] u <
                       firstIndex [''a.com'', ''b.com'', ''a.com''] v) cs"
  shows "cs = [''a.com'', ''b.com'']"
proof -
  have "length cs = 2" using assms(1,2) distinct_card [of cs] by simp
  then obtain x y where cs: "cs = [x, y]"
    by (metis (no_types) One_nat_def Suc_1 length_0_conv length_Suc_conv)
  with assms(1,2) have "x = ''a.com'' \<and> y = ''b.com'' \<or> x = ''b.com'' \<and> y = ''a.com''"
    by (auto simp: doubleton_eq_iff)
  with cs assms(3) show ?thesis by (auto simp: firstIndex_def)
qed

theorem citation_dedup_witness:
  "currentSessionObj (ensureSession Research demoManager) = Some 1 \<and>
   (\<exists>a st'. sendMessage ''sources?'' Research
       [\<lparr>ch_choices = None, ch_citations = Some [''a.com'', ''b.com'']\<rparr>,
        \<lparr>ch_choices = None, ch_citations = Some [''a.com'']\<rparr>]
       EndOfStream demoManager = (Inr a, st') \<and>
     m_citations (messageObjs st' a) = Some [''a.com'', ''b.com'']) \<and>
   (\<exists>a st'. sendMessage ''sources?'' Research [] EndOfStream demoManager = (Inr a, st') \<and>
     m_citations (messageObjs st' a) = None)"
proof -
  note h = demo_current [of Research]
  from citation_dedup [OF h, of "''sources?''"
      "[\<lparr>ch_choices = None, ch_citations = Some [''a.com'', ''b.com'']\<rparr>,
        \<lparr>ch_choices = None, ch_citations = Some [''a.com'']\<rparr>]"]
  obtain a st' cs where "sendMessage ''sources?'' Research
       [\<lparr>ch_choices = None, ch_citations = Some [''a.com'', ''b.com'']\<rparr>,
        \<lparr>ch_choices = None, ch_citations = Some [''a.com'']\<rparr>]
       EndOfStream demoManager = (Inr a, st')"
    "m_citations (messageObjs st' a) = Some cs" "distinct cs" "set cs = {''a.com'', ''b.com''}"
    "sorted_wrt (\<lambda>u v. firstIndex [''a.com'', ''b.com'', ''a.com''] u <
                       firstIndex [''a.com'', ''b.com'', ''a.com''] v) cs"
    unfolding demo_citations by auto
  moreover from this(3-5) have "cs = [''a.com'', ''b.com'']" by (rule demo_citations_unique)
  moreover from citation_dedup [OF h, of "''sources?''" "[]"]
  have "\<exists>a st'. sendMessage ''sources?'' Research [] EndOfStream demoManager = (Inr a, st') \<and>
     m_citations (messageObjs st' a) = None" by simp
  ultimately show ?thesis using h by blast
qed

section \<open>Deleting an unknown session\<close>

text \<open>
  Claim C10. For a session id that is not a key of the store, the empty string included,
  \<^verbatim>\<open>deleteSession\<close> returns the state as it was (sessions, current session, persisted blob
  and notifications fired), whereas \<^verbatim>\<open>switchToSession\<close> throws.
\<close>

theorem deleteSession_unknown_noop:
  assumes "sessionId \<notin> fst ` set (sessions st)"
  shows "deleteSession sessionId st = st \<and>
    (\<exists>msg. switchToSession sessionId st = (Inl (Error msg), st))"
proof -
  from assms have "map_of (sessions st) sessionId = None"
    by (simp add: map_of_eq_None_iff)
  then show ?thesis by (simp add: deleteSession_def switchToSession_def)
qed

lemmas demo_defs = demoManager_eq emptyManager_def createNewSession_def newSession_def addSystemMessage_def
  prim_defs Let_def split_def demoUuid_def demoClock_def orDefault_def

lemma demoOne_sessions: "sessions demoOne = [(''u'', 1)]"
  by (simp add: demoOne_def demo_defs)

lemma demoTwo_sessions: "sessions demoTwo = [(''u'', 1), (''uuu'', 4)]"
  by (simp add: demoTwo_def demoOne_def demo_defs)

lemma demoTwo_current: "currentSessionId demoTwo = Some ''uuu''"
  by (simp add: demoTwo_def demoOne_def demo_defs)

lemma demoTwo_consistent: "consistent demoTwo"
  unfolding consistent_def demoTwo_sessions
  by (simp add: demoTwo_def demoOne_def demo_defs)

theorem deleteSession_unknown_noop_witness:
  "''zz'' \<notin> fst ` set (sessions demoOne) \<and> [] \<notin> fst ` set (sessions demoOne) \<and>
   deleteSession ''zz'' demoOne = demoOne \<and> deleteSession [] demoOne = demoOne \<and>
   (\<exists>msg. switchToSession ''zz'' demoOne = (Inl (Error msg), demoOne))"
  using deleteSession_unknown_noop [of "''zz''" demoOne] deleteSession_unknown_noop [of "[]" demoOne]
  by (simp add: demoOne_sessions)

lemma sorted_neg_rev:
  "sorted (map (\<lambda>a. - (g a :: int)) xs) \<Longrightarrow> sorted (rev (map g xs))"
  by (induction xs) (auto simp: sorted_append)

lemma sort_key_head:
  assumes "sort_key f xs = h # rest"
  shows "h \<in> set xs \<and> (\<forall>x \<in> set xs. f h \<le> f x)"
proof -
  have "set (sort_key f xs) = set xs" by simp
  moreover have "sorted (map f (sort_key f xs))" by (rule sorted_sort_key)
  ultimately show ?thesis unfolding assms by auto
qed

lemma getCurrentSession_current [simp]:
  "currentSessionId (snd (getCurrentSession st)) = currentSessionId st"
  by (simp add: getCurrentSession_def getSession_def copySession_def prim_defs split_def Let_def
      split: option.splits)

lemma copySession_current [simp]:
  "currentSessionId (snd (copySession a st)) = currentSessionId st"
  by (simp add: copySession_def prim_defs)

lemma deleteSession_currentSessionId:
  "currentSessionId (deleteSession sessionId st) =
     (if sessionId = [] \<or> map_of (sessions st) sessionId = None then currentSessionId st
      else if currentSessionId st = Some sessionId then
        (case getAllSessions (st\<lparr>sessions := AList.delete sessionId (sessions st)\<rparr>) of
           [] \<Rightarrow> None
         | s # _ \<Rightarrow> Some (s_id (sessionObjs st s)))
      else currentSessionId st)"
  by (simp add: deleteSession_def Let_def split_def split: option.splits list.splits)

section \<open>Deletion and promotion\<close>

text \<open>
  Claim C6. In a consistent store, deleting the current session makes current the id of a
  remaining session whose \<^verbatim>\<open>updatedAt\<close> is greatest among the remaining ones, or no session
  when none remains; deleting a session that is not current leaves the current session id
  unchanged. \<^verbatim>\<open>getAllSessions\<close> returns the sessions of the store with \<^verbatim>\<open>updatedAt\<close>
  descending.
\<close>

theorem deleteSession_promotion:
  assumes "consistent st"
  shows "(sessionId \<noteq> [] \<and> sessionId \<in> fst ` set (sessions st) \<and>
          currentSessionId st = Some sessionId \<longrightarrow>
            (AList.delete sessionId (sessions st) = [] \<longrightarrow>
               currentSessionId (deleteSession sessionId st) = None) \<and>
            (AList.delete sessionId (sessions st) \<noteq> [] \<longrightarrow>
               (\<exists>k a. (k, a) \<in> set (AList.delete sessionId (sessions st)) \<and>
                  currentSessionId (deleteSession sessionId st) = Some k \<and>
                  (\<forall>e \<in> set (AList.delete sessionId (sessions st)).
                     s_updatedAt (sessionObjs st (snd e)) \<le> s_updatedAt (sessionObjs st a))))) \<and>
         (currentSessionId st \<noteq> Some sessionId \<longrightarrow>
            currentSessionId (deleteSession sessionId st) = currentSessionId st) \<and>
         set (getAllSessions st) = snd ` set (sessions st) \<and>
         sorted (rev (map (\<lambda>a. s_updatedAt (sessionObjs st a)) (getAllSessions st)))"
proof (intro conjI impI)
  show "currentSessionId (deleteSession sessionId st) = currentSessionId st"
    if "currentSessionId st \<noteq> Some sessionId"
    using that by (simp add: deleteSession_currentSessionId)
  show "set (getAllSessions st) = snd ` set (sessions st)"
    by (simp add: getAllSessions_def)
  have "sorted (map (\<lambda>a. - s_updatedAt (sessionObjs st a)) (getAllSessions st))"
    unfolding getAllSessions_def by (rule sorted_sort_key)
  then show "sorted (rev (map (\<lambda>a. s_updatedAt (sessionObjs st a)) (getAllSessions st)))"
    by (rule sorted_neg_rev)
next
  let ?rem = "AList.delete sessionId (sessions st)"
  let ?st1 = "st\<lparr>sessions := ?rem\<rparr>"
  assume a: "sessionId \<noteq> [] \<and> sessionId \<in> fst ` set (sessions st) \<and>
          currentSessionId st = Some sessionId"
  then obtain y where y: "map_of (sessions st) sessionId = Some y"
    by (cases "map_of (sessions st) sessionId") (auto simp: map_of_eq_None_iff)
  from a have ne: "sessionId \<noteq> []" and cu: "currentSessionId st = Some sessionId" by simp_all
  have cur: "currentSessionId (deleteSession sessionId st) =
      (case getAllSessions ?st1 of [] \<Rightarrow> None | s # _ \<Rightarrow> Some (s_id (sessionObjs st s)))"
    by (simp add: deleteSession_currentSessionId ne cu y)
  have g: "getAllSessions ?st1 = sort_key (\<lambda>a. - s_updatedAt (sessionObjs st a)) (map snd ?rem)"
    by (simp add: getAllSessions_def)
  show "currentSessionId (deleteSession sessionId st) = None" if "?rem = []"
    using that cur g by simp
  show "\<exists>k a. (k, a) \<in> set ?rem \<and> currentSessionId (deleteSession sessionId st) = Some k \<and>
      (\<forall>e \<in> set ?rem. s_updatedAt (sessionObjs st (snd e)) \<le> s_updatedAt (sessionObjs st a))"
    if "?rem \<noteq> []"
  proof -
    from that g have "getAllSessions ?st1 \<noteq> []"
      by (metis length_0_conv length_map length_sort)
    then obtain h rest where h: "getAllSessions ?st1 = h # rest"
      by (cases "getAllSessions ?st1") auto
    from sort_key_head [OF h [unfolded g]]
    have hin: "h \<in> snd ` set ?rem"
      and hmax: "\<forall>x \<in> snd ` set ?rem. s_updatedAt (sessionObjs st x) \<le> s_updatedAt (sessionObjs st h)"
      by auto
    from hin obtain k where k: "(k, h) \<in> set ?rem" by auto
    then have "(k, h) \<in> set (sessions st)" by (auto simp: AList.delete_eq)
    with assms have "s_id (sessionObjs st h) = k" by (rule consistentD(2))
    with cur h have "currentSessionId (deleteSession sessionId st) = Some k" by simp
    with k hmax show ?thesis by blast
  qed
qed

theorem deleteSession_promotion_witness:
  "consistent demoTwo \<and> currentSessionId demoTwo = Some ''uuu'' \<and>
   s_updatedAt (sessionObjs demoTwo 1) < s_updatedAt (sessionObjs demoTwo 4) \<and>
   currentSessionId (deleteSession ''uuu'' demoTwo) = Some ''u'' \<and>
   currentSessionId (deleteSession ''u'' demoTwo) = Some ''uuu''"
proof -
  have r: "AList.delete ''uuu'' (sessions demoTwo) = [(''u'', 1)]"
    by (simp add: demoTwo_sessions AList.delete_eq)
  have "s_updatedAt (sessionObjs demoTwo 1) < s_updatedAt (sessionObjs demoTwo 4)"
    by (simp add: demoTwo_def demoOne_def demo_defs)
  then show ?thesis
    using deleteSession_promotion [OF demoTwo_consistent, of "''uuu''"]
      deleteSession_promotion [OF demoTwo_consistent, of "''u''"]
      demoTwo_consistent demoTwo_current
    unfolding r by (simp add: demoTwo_sessions)
qed

lemma map_notin_upd: "n \<notin> set xs \<Longrightarrow> map (f(n := v)) xs = map f xs"
  by (induction xs) auto

lemma sendMessage_catch_messages:
  assumes "arrayObjs st (s_messages (sessionObjs st session)) = xs @ [l]"
    and "\<forall>m \<in> set xs. m < nextAddr st"
  shows "messagesOf (sendMessage_catch e session st) session =
     map (messageObjs st) (filter (\<lambda>m. m_id (messageObjs st m) \<noteq> m_id (messageObjs st l)) xs) @
     [\<lparr>m_id = uuidSource st (uuidCalls st), m_role = Assistant, m_content = errorText e,
       m_timestamp = clock st (clockCalls st), m_citations = None, m_mode = None,
       m_streaming = None\<rparr>]"
proof -
  have "\<forall>m \<in> set (filter (\<lambda>m. m_id (messageObjs st m) \<noteq> m_id (messageObjs st l)) xs).
      m < Suc (nextAddr st)"
    using assms(2) by auto
  then show ?thesis
    using assms(1)
    by (simp add: sendMessage_catch_def prim_defs Let_def split_def messagesOf_def map_fresh_upd)
qed

section \<open>Error recovery\<close>

text \<open>
  Claim C1, as amended. The call runs on a session that holds no streaming message, no other
  call changes the session before it ends, the store is consistent and the ids from
  \<^verbatim>\<open>uuidv4\<close> are new (the placeholder's id differs from the ids of the session's messages and
  of the user message). Then \<^verbatim>\<open>sendMessage\<close> appends the user message and the streaming
  placeholder; if the stream then fails after any number of chunks, the thrown value is
  thrown again to the caller, and the session's messages are the earlier ones, the user
  message unchanged, and one new assistant message with the error text; the placeholder is
  gone and no message has \<^verbatim>\<open>streaming = true\<close>.
\<close>

theorem sendMessage_failure_recovery:
  assumes "consistent st"
    and "currentSessionObj (ensureSession mode st) = Some session"
    and "filter (\<lambda>m. m_streaming m = Some True) (messagesOf (ensureSession mode st) session) = []"
    and "m_id (placeholderOf (ensureSession mode st)) \<notin>
           m_id ` set (messagesOf (ensureSession mode st) session)"
    and "m_id (placeholderOf (ensureSession mode st)) \<noteq>
           m_id (userMessageOf content mode (ensureSession mode st))"
  shows "\<exists>fr st1. sendMessage_begin content mode st = (Inr fr, st1) \<and>
     messagesOf st1 session =
       messagesOf (ensureSession mode st) session @
         [userMessageOf content mode (ensureSession mode st), placeholderOf (ensureSession mode st)] \<and>
     (\<forall>chunks. \<exists>st'.
        sendMessage content mode chunks (Failure e) st = (Inl e, st') \<and>
        messagesOf st' session =
          messagesOf (ensureSession mode st) session @
            [userMessageOf content mode (ensureSession mode st),
             errorMessageOf e (ensureSession mode st)] \<and>
        filter (\<lambda>m. m_streaming m = Some True) (messagesOf st' session) = [])"
proof -
  let ?st0 = "ensureSession mode st"
  let ?n = "nextAddr ?st0"
  let ?arr = "s_messages (sessionObjs ?st0 session)"
  let ?old = "arrayObjs ?st0 ?arr"
  from assms(2) obtain fr st1 where b: "sendMessage_begin content mode st = (Inr fr, st1)"
    and fr: "f_session fr = session" "f_assistantMessage fr = Suc ?n" "f_fullContent fr = []"
    by (rule sendMessage_begin_frame)
  have st1: "st1 = snd (sendMessage_begin content mode st)" using b by simp
  note e = sendMessage_begin_effect [OF assms(2), of content, folded st1]
  have bound: "\<forall>m \<in> set ?old. m < ?n"
    using assms(1,2) by (rule ensureSession_bound)
  have notin: "?n \<notin> set ?old" "Suc ?n \<notin> set ?old"
    using bound by auto
  have old1: "map (messageObjs st1) ?old = messagesOf ?st0 session"
    using notin by (simp add: e(2) messagesOf_def map_notin_upd)
  have arr1: "arrayObjs st1 (s_messages (sessionObjs st1 session)) = ?old @ [?n, Suc ?n]"
    by (simp add: e)
  have m1: "messagesOf st1 session =
      messagesOf ?st0 session @ [userMessageOf content mode ?st0, placeholderOf ?st0]"
    unfolding messagesOf_def [of st1] arr1 using old1 by (simp add: e(2))
  have fin: "\<exists>st'.
        sendMessage content mode chunks (Failure e) st = (Inl e, st') \<and>
        messagesOf st' session =
          messagesOf ?st0 session @ [userMessageOf content mode ?st0, errorMessageOf e ?st0] \<and>
        filter (\<lambda>m. m_streaming m = Some True) (messagesOf st' session) = []" for chunks
  proof -
    obtain fr2 st2 where f: "fold sendMessage_chunk chunks (fr, st1) = (fr2, st2)"
      by (cases "fold sendMessage_chunk chunks (fr, st1)")
    note ff = fold_chunk_frame [OF f]
    have p: "messageObjs st1 (Suc ?n) = placeholderOf ?st0" by (simp add: e(2))
    have m2: "messageObjs st2 = (messageObjs st1)(Suc ?n :=
        (placeholderOf ?st0)\<lparr>m_content := f_fullContent fr2\<rparr>)"
      using fold_chunk_message [OF f] p fr by (simp add: placeholderOf_def)
    let ?st' = "sendMessage_catch e session st2"
    have arr2: "arrayObjs st2 (s_messages (sessionObjs st2 session)) = (?old @ [?n]) @ [Suc ?n]"
      using arr1 ff(6,7) by simp
    have b2: "\<forall>m \<in> set (?old @ [?n]). m < nextAddr st2"
      using bound ff(8) e(6) by auto
    have keep: "filter (\<lambda>m. m_id (messageObjs st2 m) \<noteq> m_id (messageObjs st2 (Suc ?n)))
        (?old @ [?n]) = ?old @ [?n]"
    proof -
      have "m_id (messageObjs st2 m) \<noteq> m_id (messageObjs st2 (Suc ?n))"
        if "m \<in> set (?old @ [?n])" for m
      proof (cases "m = ?n")
        case True
        then show ?thesis using assms(5) by (simp add: m2 e(2) placeholderOf_def)
      next
        case False
        with that have "m \<in> set ?old" by simp
        with bound have "m < ?n" by simp
        then have eq: "messageObjs st2 m = messageObjs ?st0 m" by (simp add: m2 e(2))
        have "m_id (messageObjs ?st0 m) \<in> m_id ` set (messagesOf ?st0 session)"
          using \<open>m \<in> set ?old\<close> by (simp add: messagesOf_def)
        with assms(4) have "m_id (messageObjs ?st0 m) \<noteq> m_id (placeholderOf ?st0)" by auto
        moreover have "m_id (messageObjs st2 (Suc ?n)) = m_id (placeholderOf ?st0)"
          by (simp add: m2)
        ultimately show ?thesis by (simp add: eq)
      qed
      then show ?thesis by (simp only: filter_id_conv) blast
    qed
    have mm: "map (messageObjs st2) (?old @ [?n]) =
        messagesOf ?st0 session @ [userMessageOf content mode ?st0]"
      using notin by (simp add: m2 e(2) map_notin_upd messagesOf_def)
    have err: "\<lparr>m_id = uuidSource st2 (uuidCalls st2), m_role = Assistant,
        m_content = errorText e, m_timestamp = clock st2 (clockCalls st2), m_citations = None,
        m_mode = None, m_streaming = None\<rparr> = errorMessageOf e ?st0"
      using ff(12-15) e(10-13) by (simp add: errorMessageOf_def)
    have m': "messagesOf ?st' session =
        messagesOf ?st0 session @ [userMessageOf content mode ?st0, errorMessageOf e ?st0]"
      using sendMessage_catch_messages [OF arr2 b2, of e] unfolding keep mm err by simp
    have "filter (\<lambda>m. m_streaming m = Some True) (messagesOf ?st' session) = []"
      unfolding m' using assms(3) by (simp add: userMessageOf_def errorMessageOf_def)
    with m' sendMessage_unfold(2) [OF b f, of e] ff(1) fr(1) show ?thesis by simp
  qed
  from b m1 fin show ?thesis by blast
qed

lemma demo_ensure:
  "messagesOf (ensureSession mode demoManager) 1 =
     [\<lparr>m_id = ''uu'', m_role = System, m_content = systemMessages mode, m_timestamp = 1002,
       m_citations = None, m_mode = None, m_streaming = None\<rparr>]"
  "uuidSource (ensureSession mode demoManager) = demoUuid"
  "uuidCalls (ensureSession mode demoManager) = 2"
  "clock (ensureSession mode demoManager) = demoClock"
  "clockCalls (ensureSession mode demoManager) = 3"
  by (simp_all add: ensureSession_def truthy_def demo_defs messagesOf_def)

lemmas demo_ensure' = demo_ensure demo_ensure(1) [unfolded One_nat_def]

theorem sendMessage_failure_recovery_witness:
  "consistent demoManager \<and> currentSessionObj (ensureSession Explain demoManager) = Some 1 \<and>
   filter (\<lambda>m. m_streaming m = Some True) (messagesOf (ensureSession Explain demoManager) 1) = [] \<and>
   m_id (placeholderOf (ensureSession Explain demoManager)) \<notin>
     m_id ` set (messagesOf (ensureSession Explain demoManager) 1) \<and>
   m_id (placeholderOf (ensureSession Explain demoManager)) \<noteq>
     m_id (userMessageOf ''explain this'' Explain (ensureSession Explain demoManager)) \<and>
   (\<exists>st'. sendMessage ''explain this'' Explain
       [\<lparr>ch_choices = Some [Some (Some ''Par'')], ch_citations = None\<rparr>]
       (Failure (Error ''Perplexity server error. Please try again later.'')) demoManager =
       (Inl (Error ''Perplexity server error. Please try again later.''), st') \<and>
      map (\<lambda>m. (m_role m, m_content m, m_streaming m)) (messagesOf st' 1) =
        [(System, systemMessages Explain, None), (User, ''explain this'', None),
         (Assistant, ''Error: Perplexity server error. Please try again later.'', None)])"
proof -
  have h3: "filter (\<lambda>m. m_streaming m = Some True)
      (messagesOf (ensureSession Explain demoManager) 1) = []"
    by (simp add: demo_ensure')
  have h4: "m_id (placeholderOf (ensureSession Explain demoManager)) \<notin>
     m_id ` set (messagesOf (ensureSession Explain demoManager) 1)"
    by (simp add: demo_ensure' placeholderOf_def demoUuid_def eval_nat_numeral)
  have h5: "m_id (placeholderOf (ensureSession Explain demoManager)) \<noteq>
     m_id (userMessageOf ''explain this'' Explain (ensureSession Explain demoManager))"
    by (simp add: demo_ensure' placeholderOf_def userMessageOf_def demoUuid_def eval_nat_numeral)
  from sendMessage_failure_recovery [OF demo_consistent demo_current h3 h4 h5,
      of "Error ''Perplexity server error. Please try again later.''"]
  obtain st' where "sendMessage ''explain this'' Explain
       [\<lparr>ch_choices = Some [Some (Some ''Par'')], ch_citations = None\<rparr>]
       (Failure (Error ''Perplexity server error. Please try again later.'')) demoManager =
       (Inl (Error ''Perplexity server error. Please try again later.''), st')"
    "messagesOf st' 1 = messagesOf (ensureSession Explain demoManager) 1 @
       [userMessageOf ''explain this'' Explain (ensureSession Explain demoManager),
        errorMessageOf (Error ''Perplexity server error. Please try again later.'')
          (ensureSession Explain demoManager)]"
    by blast
  then have "\<exists>st'. sendMessage ''explain this'' Explain
       [\<lparr>ch_choices = Some [Some (Some ''Par'')], ch_citations = None\<rparr>]
       (Failure (Error ''Perplexity server error. Please try again later.'')) demoManager =
       (Inl (Error ''Perplexity server error. Please try again later.''), st') \<and>
      map (\<lambda>m. (m_role m, m_content m, m_streaming m)) (messagesOf st' 1) =
        [(System, systemMessages Explain, None), (User, ''explain this'', None),
         (Assistant, ''Error: Perplexity server error. Please try again later.'', None)]"
    by (simp add: demo_ensure' userMessageOf_def errorMessageOf_def errorText_def)
  with demo_consistent demo_current [of Explain] h3 h4 h5 show ?thesis by blast
qed

lemma placeholderOf_streaming [simp]: "m_streaming (placeholderOf st) = Some True"
  by (simp add: placeholderOf_def)

lemma userMessageOf_streaming [simp]: "m_streaming (userMessageOf c m st) = None"
  by (simp add: userMessageOf_def)

lemma sendMessage_begin_messages:
  assumes "consistent st" "currentSessionObj (ensureSession mode st) = Some session"
  shows "messagesOf (snd (sendMessage_begin content mode st)) session =
     messagesOf (ensureSession mode st) session @
       [userMessageOf content mode (ensureSession mode st), placeholderOf (ensureSession mode st)]"
proof -
  let ?st0 = "ensureSession mode st"
  note e = sendMessage_begin_effect [OF assms(2), of content]
  have "\<forall>m \<in> set (arrayObjs ?st0 (s_messages (sessionObjs ?st0 session))). m < nextAddr ?st0"
    using assms by (rule ensureSession_bound)
  then have "nextAddr ?st0 \<notin> set (arrayObjs ?st0 (s_messages (sessionObjs ?st0 session)))"
    "Suc (nextAddr ?st0) \<notin> set (arrayObjs ?st0 (s_messages (sessionObjs ?st0 session)))"
    by auto
  then show ?thesis
    by (simp add: messagesOf_def e map_notin_upd)
qed

section \<open>A send while a stream is in flight\<close>

text \<open>
  Claim C4, as amended. The code has no busy guard. In a consistent store, \<^verbatim>\<open>sendMessage\<close> is
  rejected before the stream only when no session is found (\<^verbatim>\<open>No active session found\<close>);
  whenever its session is found, whether or not that session already holds a streaming
  message, it appends the user message and one more streaming placeholder, so the number of
  streaming messages of the session grows by one.
\<close>

theorem sendMessage_no_busy_guard:
  assumes "consistent st"
  shows "(currentSessionObj (ensureSession mode st) = None \<longrightarrow>
            fst (sendMessage_begin content mode st) = Inl (Error ''No active session found'')) \<and>
         (currentSessionObj (ensureSession mode st) = Some session \<longrightarrow>
            (\<exists>fr st1. sendMessage_begin content mode st = (Inr fr, st1) \<and>
               messagesOf st1 session =
                 messagesOf (ensureSession mode st) session @
                   [userMessageOf content mode (ensureSession mode st),
                    placeholderOf (ensureSession mode st)] \<and>
               length (filter (\<lambda>m. m_streaming m = Some True) (messagesOf st1 session)) =
                 Suc (length (filter (\<lambda>m. m_streaming m = Some True)
                   (messagesOf (ensureSession mode st) session)))))"
proof (intro conjI impI)
  assume "currentSessionObj (ensureSession mode st) = None"
  then show "fst (sendMessage_begin content mode st) = Inl (Error ''No active session found'')"
    by (simp add: sendMessage_begin_def Let_def)
next
  assume s: "currentSessionObj (ensureSession mode st) = Some session"
  then obtain fr st1 where b: "sendMessage_begin content mode st = (Inr fr, st1)"
    by (rule sendMessage_begin_frame)
  from sendMessage_begin_messages [OF assms s, of content] b
  have m: "messagesOf st1 session =
      messagesOf (ensureSession mode st) session @
        [userMessageOf content mode (ensureSession mode st),
         placeholderOf (ensureSession mode st)]" by simp
  then have "length (filter (\<lambda>m. m_streaming m = Some True) (messagesOf st1 session)) =
      Suc (length (filter (\<lambda>m. m_streaming m = Some True)
        (messagesOf (ensureSession mode st) session)))"
    by simp
  with b m show "\<exists>fr st1. sendMessage_begin content mode st = (Inr fr, st1) \<and>
               messagesOf st1 session =
                 messagesOf (ensureSession mode st) session @
                   [userMessageOf content mode (ensureSession mode st),
                    placeholderOf (ensureSession mode st)] \<and>
               length (filter (\<lambda>m. m_streaming m = Some True) (messagesOf st1 session)) =
                 Suc (length (filter (\<lambda>m. m_streaming m = Some True)
                   (messagesOf (ensureSession mode st) session)))"
    by blast
qed

lemma demoStreaming_facts:
  "currentSessionId demoStreaming = Some ''u''"
  "sessions demoStreaming = [(''u'', 1)]"
  "nextAddr demoStreaming = 5"
  "s_messages (sessionObjs demoStreaming (Suc 0)) = 0"
  "s_id (sessionObjs demoStreaming (Suc 0)) = ''u''"
  "arrayObjs demoStreaming 0 = [2, 3, 4]"
  using sendMessage_begin_effect [OF demo_current [of General], of "''first question''"]
  by (simp_all add: demoStreaming_def ensureSession_def truthy_def demo_defs)

lemma demoStreaming_consistent: "consistent demoStreaming"
  by (simp add: consistent_def demoStreaming_facts)

lemma demoStreaming_ensure: "ensureSession mode demoStreaming = demoStreaming"
  by (simp add: ensureSession_def truthy_def demoStreaming_facts)

lemma demoStreaming_current: "currentSessionObj (ensureSession mode demoStreaming) = Some 1"
  by (simp add: demoStreaming_ensure currentSessionObj_def demoStreaming_facts)

lemma demoStreaming_messages:
  "map (\<lambda>m. (m_role m, m_content m, m_streaming m)) (messagesOf demoStreaming 1) =
     [(System, systemMessages General, None), (User, ''first question'', None),
      (Assistant, [], Some True)]"
  using sendMessage_begin_messages [OF demo_consistent demo_current [of General], of "''first question''"]
  by (simp add: demoStreaming_def demo_ensure' userMessageOf_def placeholderOf_def)

theorem sendMessage_no_busy_guard_witness:
  "consistent demoStreaming \<and> currentSessionObj (ensureSession General demoStreaming) = Some 1 \<and>
   filter (\<lambda>m. m_streaming m = Some True) (messagesOf demoStreaming 1) \<noteq> [] \<and>
   (\<exists>fr st1. sendMessage_begin ''second question'' General demoStreaming = (Inr fr, st1) \<and>
      map (\<lambda>m. (m_role m, m_content m, m_streaming m)) (messagesOf st1 1) =
        [(System, systemMessages General, None), (User, ''first question'', None),
         (Assistant, [], Some True), (User, ''second question'', None),
         (Assistant, [], Some True)])"
proof -
  have "filter (\<lambda>m. m_streaming m = Some True) (messagesOf demoStreaming 1) \<noteq> []"
    using demoStreaming_messages by (auto simp: filter_empty_conv)
  moreover
  from sendMessage_no_busy_guard [OF demoStreaming_consistent,
      where mode = General and session = 1 and content = "''second question''"]
    demoStreaming_current [of General]
  obtain fr st1 where "sendMessage_begin ''second question'' General demoStreaming = (Inr fr, st1)"
    "messagesOf st1 1 = messagesOf demoStreaming 1 @
       [userMessageOf ''second question'' General demoStreaming, placeholderOf demoStreaming]"
    unfolding demoStreaming_ensure by blast
  then have "\<exists>fr st1. sendMessage_begin ''second question'' General demoStreaming = (Inr fr, st1) \<and>
      map (\<lambda>m. (m_role m, m_content m, m_streaming m)) (messagesOf st1 1) =
        [(System, systemMessages General, None), (User, ''first question'', None),
         (Assistant, [], Some True), (User, ''second question'', None),
         (Assistant, [], Some True)]"
    using demoStreaming_messages by (simp add: userMessageOf_def placeholderOf_def)
  ultimately show ?thesis
    using demoStreaming_consistent demoStreaming_current [of General] by blast
qed

text \<open>
  Claim C4 as stated fails: in the session of \<open>demoStreaming\<close> a stream is in flight (its
  placeholder has \<^verbatim>\<open>streaming = true\<close>), and a second \<^verbatim>\<open>sendMessage\<close> is not rejected; after
  it the session has two streaming placeholders.
\<close>

theorem busy_guard_counterexample:
  "filter (\<lambda>m. m_streaming m = Some True) (messagesOf demoStreaming 1) \<noteq> [] \<and>
   currentSessionId demoStreaming = Some ''u'' \<and> map_of (sessions demoStreaming) ''u'' = Some 1 \<and>
   (\<exists>fr st1. sendMessage_begin ''second question'' General demoStreaming = (Inr fr, st1) \<and>
      length (filter (\<lambda>m. m_streaming m = Some True) (messagesOf st1 1)) = 2)"
proof -
  have a: "filter (\<lambda>m. m_streaming m = Some True) (messagesOf demoStreaming 1) \<noteq> []"
    using demoStreaming_messages by (auto simp: filter_empty_conv)
  obtain fr st1 where b: "sendMessage_begin ''second question'' General demoStreaming = (Inr fr, st1)"
    using demoStreaming_current [of General] by (rule sendMessage_begin_frame)
  have "messagesOf st1 1 = messagesOf demoStreaming 1 @
       [userMessageOf ''second question'' General demoStreaming, placeholderOf demoStreaming]"
    using sendMessage_begin_messages [OF demoStreaming_consistent demoStreaming_current [of General],
        of "''second question''"] b
    by (simp add: demoStreaming_ensure)
  moreover have "length (filter (\<lambda>m. m_streaming m = Some True) (messagesOf demoStreaming 1)) = 1"
  proof -
    have "length (filter (\<lambda>m. m_streaming m = Some True) (messagesOf demoStreaming 1)) =
        length (filter (\<lambda>t. snd (snd t) = Some True)
          (map (\<lambda>m. (m_role m, m_content m, m_streaming m)) (messagesOf demoStreaming 1)))"
      by (simp add: filter_map comp_def)
    then show ?thesis unfolding demoStreaming_messages by simp
  qed
  ultimately have "length (filter (\<lambda>m. m_streaming m = Some True) (messagesOf st1 1)) = 2"
    by simp
  with a b show ?thesis by (simp add: demoStreaming_facts)
qed



section \<open>Copies returned by the getters\<close>






lemma dateOrNow_frame:
  assumes "dateOrNow x s = (t, s')"
  shows "x = None \<or> x = Some t"
    "sessionObjs s' = sessionObjs s" "arrayObjs s' = arrayObjs s" "messageObjs s' = messageObjs s"
    "nextAddr s' = nextAddr s" "sessions s' = sessions s"
    "currentSessionId s' = currentSessionId s" "globalState s' = globalState s"
    "fired s' = fired s" "uuidSource s' = uuidSource s" "uuidCalls s' = uuidCalls s"
    "clock s' = clock s"
  using assms by (auto simp: dateOrNow_def newDate_def split: option.splits)

lemma loadMessages_frame:
  assumes "loadMessages msgs s = (as, s')"
  shows "sessionObjs s' = sessionObjs s \<and> arrayObjs s' = arrayObjs s \<and>
    sessions s' = sessions s \<and> currentSessionId s' = currentSessionId s \<and>
    globalState s' = globalState s \<and> fired s' = fired s \<and>
    uuidSource s' = uuidSource s \<and> uuidCalls s' = uuidCalls s \<and> clock s' = clock s \<and>
    nextAddr s \<le> nextAddr s' \<and>
    (\<forall>a \<in> set as. nextAddr s \<le> a \<and> a < nextAddr s') \<and>
    (\<forall>a. a < nextAddr s \<longrightarrow> messageObjs s' a = messageObjs s a) \<and>
    list_all2 loadedFrom (filter keptMessage msgs) (map (messageObjs s') as)"
  using assms
proof (induction msgs arbitrary: s as s')
  case Nil
  then show ?case by simp
next
  case (Cons msg rest)
  show ?case
  proof (cases "keptMessage msg")
    case False
    then have "loadMessages (msg # rest) s = loadMessages rest s"
      by (auto simp: keptMessage_def split: option.splits)
    with Cons.prems have "loadMessages rest s = (as, s')" by simp
    from Cons.IH [OF this] False show ?thesis by simp
  next
    case True
    then obtain role where role: "sm_role msg = Some role"
      and tr: "truthy (sm_id msg)" "truthy (sm_content msg)"
      by (auto simp: keptMessage_def)
    obtain ts s1 where d: "dateOrNow (sm_timestamp msg) s = (ts, s1)"
      by (cases "dateOrNow (sm_timestamp msg) s")
    let ?m = "\<lparr>m_id = orDefault (sm_id msg) [], m_role = role,
                    m_content = orDefault (sm_content msg) [], m_timestamp = ts,
                    m_citations = Some (case sm_citations msg of None \<Rightarrow> [] | Some cs \<Rightarrow> cs),
                    m_mode = Some (case sm_mode msg of None \<Rightarrow> General | Some md \<Rightarrow> md),
                    m_streaming = Some (sm_streaming msg = Some True)\<rparr>"
    let ?s2 = "snd (allocMessage ?m s1)"
    note df = dateOrNow_frame [OF d]
    have a1: "fst (allocMessage ?m s1) = nextAddr s" by (simp add: allocMessage_def df)
    obtain as' s'' where r0: "loadMessages rest ?s2 = (as', s'')"
      by (cases "loadMessages rest ?s2")
    have "loadMessages (msg # rest) s = (nextAddr s # as', s'')"
      using role tr d a1 r0 by (simp add: split_def)
    with Cons.prems have as: "as = nextAddr s # as'" and "s'' = s'" by simp_all
    with r0 have r: "loadMessages rest ?s2 = (as', s')" by simp
    note ih = Cons.IH [OF r]
    have n2: "nextAddr ?s2 = Suc (nextAddr s)" by (simp add: allocMessage_def df)
    have m2: "messageObjs ?s2 = (messageObjs s)(nextAddr s := ?m)"
      by (simp add: allocMessage_def df)
    have f2: "sessionObjs ?s2 = sessionObjs s" "arrayObjs ?s2 = arrayObjs s"
      "sessions ?s2 = sessions s" "currentSessionId ?s2 = currentSessionId s"
      "globalState ?s2 = globalState s" "fired ?s2 = fired s"
      "uuidSource ?s2 = uuidSource s" "uuidCalls ?s2 = uuidCalls s" "clock ?s2 = clock s"
      by (simp_all add: allocMessage_def df)
    have lf: "loadedFrom msg ?m"
      using role tr df(1)
      by (auto simp: loadedFrom_def truthy_def orDefault_def split: option.splits)
    have here: "messageObjs s' (nextAddr s) = ?m"
      using ih n2 m2 by simp
    have "list_all2 loadedFrom (filter keptMessage (msg # rest)) (map (messageObjs s') as)"
      using ih True as here lf by simp
    moreover have "\<forall>a \<in> set as. nextAddr s \<le> a \<and> a < nextAddr s'"
      using ih n2 as by auto
    moreover have "\<forall>a. a < nextAddr s \<longrightarrow> messageObjs s' a = messageObjs s a"
      using ih n2 m2 by simp
    moreover have "nextAddr s \<le> nextAddr s'" using ih n2 by simp
    ultimately show ?thesis using ih f2 by simp
  qed
qed

lemma loadEntry_effect:
  obtains arr ms obj where
    "sessions (loadEntry d s) = AList.update (orDefault (ss_id d) []) (Suc arr) (sessions s)"
    "nextAddr s \<le> arr" "nextAddr (loadEntry d s) = Suc (Suc arr)"
    "sessionObjs (loadEntry d s) = (sessionObjs s)(Suc arr := obj)"
    "s_id obj = orDefault (ss_id d) []" "s_title obj = orDefault (ss_title d) ''Untitled''"
    "s_messages obj = arr"
    "s_mode obj = (case ss_mode d of None \<Rightarrow> General | Some md \<Rightarrow> md)"
    "ss_createdAt d = None \<or> ss_createdAt d = Some (s_createdAt obj)"
    "ss_updatedAt d = None \<or> ss_updatedAt d = Some (s_updatedAt obj)"
    "arrayObjs (loadEntry d s) = (arrayObjs s)(arr := ms)"
    "\<forall>m \<in> set ms. nextAddr s \<le> m \<and> m < arr"
    "\<forall>x. x < nextAddr s \<longrightarrow> messageObjs (loadEntry d s) x = messageObjs s x"
    "list_all2 loadedFrom (filter keptMessage (storedMessages d)) (map (messageObjs (loadEntry d s)) ms)"
    "currentSessionId (loadEntry d s) = currentSessionId s"
    "globalState (loadEntry d s) = globalState s" "fired (loadEntry d s) = fired s"
    "uuidSource (loadEntry d s) = uuidSource s" "uuidCalls (loadEntry d s) = uuidCalls s"
    "clock (loadEntry d s) = clock s"
proof -
  obtain ms s1 where l: "loadMessages (storedMessages d) s = (ms, s1)"
    by (cases "loadMessages (storedMessages d) s")
  have l': "(case ss_messages d of Some msgs \<Rightarrow> loadMessages msgs s | None \<Rightarrow> ([], s)) = (ms, s1)"
    using l by (simp add: storedMessages_def split: option.splits)
  note lf = loadMessages_frame [OF l]
  let ?s2 = "snd (allocArray ms s1)"
  obtain c s3 where d1: "dateOrNow (ss_createdAt d) ?s2 = (c, s3)"
    by (cases "dateOrNow (ss_createdAt d) ?s2")
  obtain u s4 where d2: "dateOrNow (ss_updatedAt d) s3 = (u, s4)"
    by (cases "dateOrNow (ss_updatedAt d) s3")
  note f1 = dateOrNow_frame [OF d1]
  note f2 = dateOrNow_frame [OF d2]
  let ?obj = "\<lparr>s_id = orDefault (ss_id d) [],
             s_title = orDefault (ss_title d) ''Untitled'',
             s_messages = nextAddr s1, s_createdAt = c, s_updatedAt = u,
             s_mode = (case ss_mode d of None \<Rightarrow> General | Some md \<Rightarrow> md)\<rparr>"
  have fa: "fst (allocArray ms s1) = nextAddr s1" by (simp add: allocArray_def)
  have e0: "loadEntry d s =
      (snd (allocSession ?obj s4))\<lparr>sessions :=
         AList.update (orDefault (ss_id d) []) (fst (allocSession ?obj s4))
           (sessions (snd (allocSession ?obj s4)))\<rparr>"
    by (simp add: loadEntry_def l' d1 d2 split_def fa Let_def)
  have n4: "nextAddr s4 = Suc (nextAddr s1)"
    by (simp add: f2 f1 allocArray_def)
  have flds: "sessionObjs s4 = sessionObjs s" "arrayObjs s4 = (arrayObjs s)(nextAddr s1 := ms)"
    "messageObjs s4 = messageObjs s1" "sessions s4 = sessions s"
    "currentSessionId s4 = currentSessionId s" "globalState s4 = globalState s"
    "fired s4 = fired s" "uuidSource s4 = uuidSource s" "uuidCalls s4 = uuidCalls s"
    "clock s4 = clock s"
    using lf by (simp_all add: f2 f1 allocArray_def)
  have e: "loadEntry d s =
      s4\<lparr>sessionObjs := (sessionObjs s)(Suc (nextAddr s1) := ?obj),
         nextAddr := Suc (Suc (nextAddr s1)),
         sessions := AList.update (orDefault (ss_id d) []) (Suc (nextAddr s1)) (sessions s)\<rparr>"
    unfolding e0 by (simp add: allocSession_def n4 flds)
  show thesis
  proof (rule that [of "nextAddr s1" ?obj ms])
    show "list_all2 loadedFrom (filter keptMessage (storedMessages d))
        (map (messageObjs (loadEntry d s)) ms)"
      using lf by (simp add: e flds)
  qed (use lf f1(1) f2(1) in \<open>simp_all add: e flds\<close>)
qed

lemma set_update_subset: "set (AList.update k v xs) \<subseteq> insert (k, v) (set xs)"
  by (induction xs) auto

lemma distinct_map_update:
  assumes "distinct (map g xs)" "\<forall>e \<in> set xs. g e \<noteq> g (k, v)"
  shows "distinct (map g (AList.update k v xs))"
  using assms
proof (induction xs)
  case Nil
  then show ?case by simp
next
  case (Cons p ps)
  show ?case
  proof (cases "fst p = k")
    case True
    with Cons.prems show ?thesis by (auto simp: image_iff)
  next
    case False
    have "g p \<notin> g ` set (AList.update k v ps)"
      using Cons.prems set_update_subset [of k v ps] by (auto simp: image_iff)
    with False Cons show ?thesis by simp
  qed
qed

lemma consistent_update:
  assumes "consistent s"
    and "sessions s' = AList.update k a (sessions s)"
    and "nextAddr s \<le> arr" "arr < nextAddr s'" "nextAddr s \<le> a" "a < nextAddr s'"
    and "sessionObjs s' = (sessionObjs s)(a := obj)" "s_id obj = k" "s_messages obj = arr"
    and "\<forall>x. x < nextAddr s \<longrightarrow> arrayObjs s' x = arrayObjs s x"
    and "\<forall>m \<in> set (arrayObjs s' arr). m < nextAddr s'"
  shows "consistent s'"
proof -
  let ?g = "\<lambda>e. s_messages (sessionObjs s (snd e))"
  let ?g' = "\<lambda>e. s_messages (sessionObjs s' (snd e))"
  have le: "nextAddr s \<le> nextAddr s'" using assms(5,6) by simp
  have old: "snd e < nextAddr s \<and> s_id (sessionObjs s (snd e)) = fst e \<and> ?g e < nextAddr s \<and>
      (\<forall>m \<in> set (arrayObjs s (?g e)). m < nextAddr s)" if "e \<in> set (sessions s)" for e
    using that assms(1) unfolding consistent_def by blast
  have same: "sessionObjs s' (snd e) = sessionObjs s (snd e)" if "e \<in> set (sessions s)" for e
    using old [OF that] assms(5) by (simp add: assms(7))
  have d1: "distinct (map fst (sessions s'))"
    unfolding assms(2) using assms(1) by (simp add: consistent_def AList.distinct_update)
  have d2: "distinct (map snd (sessions s'))"
    unfolding assms(2)
  proof (rule distinct_map_update)
    show "distinct (map snd (sessions s))" using assms(1) by (simp add: consistent_def)
    show "\<forall>e \<in> set (sessions s). snd e \<noteq> snd (k, a)"
    proof
      fix e assume "e \<in> set (sessions s)"
      from old [OF this] have "snd e < nextAddr s" by simp
      with assms(5) show "snd e \<noteq> snd (k, a)" by simp
    qed
  qed
  have meq: "map ?g' (sessions s) = map ?g (sessions s)"
    using same by (intro map_cong) auto
  have dg: "distinct (map ?g' (sessions s))"
    unfolding meq using assms(1) by (simp add: consistent_def)
  have d3: "distinct (map ?g' (sessions s'))"
    unfolding assms(2)
  proof (rule distinct_map_update [OF dg])
    show "\<forall>e \<in> set (sessions s). ?g' e \<noteq> ?g' (k, a)"
    proof
      fix e assume e: "e \<in> set (sessions s)"
      then have "?g' e < nextAddr s" using old [OF e] same [OF e] by simp
      moreover have "?g' (k, a) = arr" by (simp add: assms(7,9))
      ultimately show "?g' e \<noteq> ?g' (k, a)" using assms(3) by simp
    qed
  qed
  have all: "snd e < nextAddr s' \<and> s_id (sessionObjs s' (snd e)) = fst e \<and> ?g' e < nextAddr s' \<and>
      (\<forall>m \<in> set (arrayObjs s' (?g' e)). m < nextAddr s')" if "e \<in> set (sessions s')" for e
  proof (cases "e = (k, a)")
    case True
    then show ?thesis using assms(4,6,8,9,11) by (simp add: assms(7))
  next
    case False
    with that have e: "e \<in> set (sessions s)"
      unfolding assms(2) using set_update_subset [of k a "sessions s"] by auto
    from old [OF e] same [OF e] assms(10) le show ?thesis by auto
  qed
  show ?thesis
    unfolding consistent_def using d1 d2 d3 all by blast
qed

lemma loadEntry_consistent:
  assumes "consistent s"
  shows "consistent (loadEntry d s)"
proof -
  obtain arr ms obj where e:
    "sessions (loadEntry d s) = AList.update (orDefault (ss_id d) []) (Suc arr) (sessions s)"
    "nextAddr s \<le> arr" "nextAddr (loadEntry d s) = Suc (Suc arr)"
    "sessionObjs (loadEntry d s) = (sessionObjs s)(Suc arr := obj)"
    "s_id obj = orDefault (ss_id d) []" "s_messages obj = arr"
    "arrayObjs (loadEntry d s) = (arrayObjs s)(arr := ms)"
    "\<forall>m \<in> set ms. nextAddr s \<le> m \<and> m < arr"
    by (rule loadEntry_effect [of d s]) blast
  show ?thesis
    using assms e(1)
  proof (rule consistent_update [where arr = arr and obj = obj])
    show "\<forall>m \<in> set (arrayObjs (loadEntry d s) arr). m < nextAddr (loadEntry d s)"
      using e(8) by (simp add: e(7) e(3)) (meson less_Suc_eq)
  qed (use e in auto)
qed

lemma loadEntries_consistent:
  "consistent s \<Longrightarrow> consistent (loadEntries ds s)"
  by (induction ds arbitrary: s) (simp_all add: loadEntry_consistent)

lemma loadedFrom_toStored: "loadedFrom (toStored m) m' \<longleftrightarrow> m' = normaliseMessage m"
  by (cases m; cases m') (auto simp: loadedFrom_def toStored_def normaliseMessage_def)

lemma keptMessage_toStored: "keptMessage (toStored m) \<longleftrightarrow> m_id m \<noteq> [] \<and> m_content m \<noteq> []"
  by (simp add: keptMessage_def toStored_def truthy_def)

lemma list_all2_loaded:
  assumes "list_all2 loadedFrom (map toStored ms) ms'"
  shows "ms' = map normaliseMessage ms"
  using assms
  by (induction ms arbitrary: ms') (auto simp: list_all2_Cons1 loadedFrom_toStored)

lemma loadEntry_old_snapshot:
  assumes "consistent s" "e \<in> set (sessions s)"
  shows "snapshot (loadEntry d s) (snd e) = snapshot s (snd e)"
proof -
  obtain arr ms obj where f:
    "nextAddr s \<le> arr"
    "sessionObjs (loadEntry d s) = (sessionObjs s)(Suc arr := obj)"
    "arrayObjs (loadEntry d s) = (arrayObjs s)(arr := ms)"
    "\<forall>x. x < nextAddr s \<longrightarrow> messageObjs (loadEntry d s) x = messageObjs s x"
    by (rule loadEntry_effect [of d s]) blast
  from assms have b: "snd e < nextAddr s" "s_messages (sessionObjs s (snd e)) < nextAddr s"
    "\<forall>m \<in> set (arrayObjs s (s_messages (sessionObjs s (snd e)))). m < nextAddr s"
    using consistentD [of s "fst e" "snd e"] by simp_all
  have "map (messageObjs (loadEntry d s)) (arrayObjs s (s_messages (sessionObjs s (snd e)))) =
      map (messageObjs s) (arrayObjs s (s_messages (sessionObjs s (snd e))))"
    using b(3) f(4) by (intro map_cong) auto
  then show ?thesis
    using b f(1) by (simp add: snapshot_def messagesOf_def f(2,3))
qed

lemma loadEntry_views:
  assumes "consistent s"
  shows "map (\<lambda>e. (fst e, snapshot (loadEntry d s) (snd e))) (sessions s) =
     map (\<lambda>e. (fst e, snapshot s (snd e))) (sessions s)"
  using loadEntry_old_snapshot [OF assms] by (intro map_cong) auto

lemma update_fresh_key: "k \<notin> fst ` set xs \<Longrightarrow> AList.update k v xs = xs @ [(k, v)]"
  by (induction xs) auto

lemma loadEntry_stored:
  assumes "consistent s" "k \<notin> fst ` set (sessions s)" "s_id (sessionObjs st a) = k"
    "list_all (\<lambda>m. m_id m \<noteq> [] \<and> m_content m \<noteq> []) (messagesOf st a)"
  shows "fst (storeView (loadEntry (storedSession st a) s)) =
     fst (storeView s) @ [(k, normaliseSession (snapshot st a))]"
proof -
  let ?d = "storedSession st a"
  let ?s' = "loadEntry ?d s"
  have kept: "filter keptMessage (storedMessages ?d) = map toStored (messagesOf st a)"
    using assms(4)
    by (simp add: storedMessages_def storedSession_def filter_id_conv list_all_iff
        keptMessage_toStored)
  obtain arr ms obj where f:
    "sessions ?s' = AList.update (orDefault (ss_id ?d) []) (Suc arr) (sessions s)"
    "sessionObjs ?s' = (sessionObjs s)(Suc arr := obj)"
    "s_id obj = orDefault (ss_id ?d) []" "s_title obj = orDefault (ss_title ?d) ''Untitled''"
    "s_messages obj = arr"
    "s_mode obj = (case ss_mode ?d of None \<Rightarrow> General | Some md \<Rightarrow> md)"
    "ss_createdAt ?d = None \<or> ss_createdAt ?d = Some (s_createdAt obj)"
    "ss_updatedAt ?d = None \<or> ss_updatedAt ?d = Some (s_updatedAt obj)"
    "arrayObjs ?s' = (arrayObjs s)(arr := ms)"
    "list_all2 loadedFrom (filter keptMessage (storedMessages ?d)) (map (messageObjs ?s') ms)"
    by (rule loadEntry_effect [of ?d s]) blast
  have ms: "map (messageObjs ?s') ms = map normaliseMessage (messagesOf st a)"
    using f(10) unfolding kept by (rule list_all2_loaded)
  have key: "orDefault (ss_id ?d) [] = k"
    using assms(3) by (simp add: storedSession_def orDefault_def)
  have o: "s_id obj = s_id (sessionObjs st a)"
    "s_title obj = orDefault (Some (s_title (sessionObjs st a))) ''Untitled''"
    "s_mode obj = s_mode (sessionObjs st a)"
    "s_createdAt obj = s_createdAt (sessionObjs st a)"
    "s_updatedAt obj = s_updatedAt (sessionObjs st a)"
    using f(3,4,6,7,8) by (simp_all add: storedSession_def orDefault_def)
  have mm: "messagesOf ?s' (Suc arr) = map normaliseMessage (messagesOf st a)"
    using ms by (simp add: messagesOf_def [of ?s'] f(2,9) f(5))
  have so: "sessionObjs ?s' (Suc arr) = obj" by (simp add: f(2))
  have new: "snapshot ?s' (Suc arr) = normaliseSession (snapshot st a)"
    unfolding snapshot_def [of ?s'] so o mm
    by (simp add: snapshot_def normaliseSession_def)
  have "sessions ?s' = sessions s @ [(k, Suc arr)]"
    unfolding f(1) key using assms(2) by (rule update_fresh_key)
  then show ?thesis
    using loadEntry_views [OF assms(1), of ?d] new by (simp add: storeView_def)
qed

lemma storeView_keys: "map fst (fst (storeView s)) = map fst (sessions s)"
  by (simp add: storeView_def comp_def)

lemma loadEntries_saved:
  assumes "consistent s" "distinct (map fst es)"
    "\<forall>e \<in> set es. fst e \<notin> fst ` set (sessions s)"
    "\<forall>e \<in> set es. fst e \<noteq> [] \<and> s_id (sessionObjs st (snd e)) = fst e \<and>
       list_all (\<lambda>m. m_id m \<noteq> [] \<and> m_content m \<noteq> []) (messagesOf st (snd e))"
  shows "fst (storeView (loadEntries (map (\<lambda>e. storedSession st (snd e)) es) s)) =
     fst (storeView s) @ map (\<lambda>e. (fst e, normaliseSession (snapshot st (snd e)))) es"
  using assms
proof (induction es arbitrary: s)
  case Nil
  then show ?case by simp
next
  case (Cons e es)
  let ?d = "storedSession st (snd e)"
  let ?s1 = "loadEntry ?d s"
  from Cons.prems(4) have v: "fst e \<noteq> []" "s_id (sessionObjs st (snd e)) = fst e"
    "list_all (\<lambda>m. m_id m \<noteq> [] \<and> m_content m \<noteq> []) (messagesOf st (snd e))"
    by simp_all
  have t: "truthy (ss_id ?d)" using v(1,2) by (simp add: storedSession_def truthy_def)
  have fresh: "fst e \<notin> fst ` set (sessions s)" using Cons.prems(3) by simp
  have one: "fst (storeView ?s1) = fst (storeView s) @ [(fst e, normaliseSession (snapshot st (snd e)))]"
    using Cons.prems(1) fresh v(2,3) by (rule loadEntry_stored)
  have c1: "consistent ?s1" using Cons.prems(1) by (rule loadEntry_consistent)
  have k0: "map fst (sessions ?s1) = map fst (sessions s) @ [fst e]"
    using arg_cong [OF one, of "map fst"] by (simp add: storeView_keys)
  have keys: "fst ` set (sessions ?s1) = insert (fst e) (fst ` set (sessions s))"
  proof -
    have "fst ` set (sessions ?s1) = set (map fst (sessions ?s1))" by simp
    also have "\<dots> = set (map fst (sessions s) @ [fst e])" by (simp only: k0)
    also have "\<dots> = insert (fst e) (fst ` set (sessions s))" by simp
    finally show ?thesis .
  qed
  have f1: "\<forall>x \<in> set es. fst x \<notin> fst ` set (sessions ?s1)"
  proof
    fix x assume x: "x \<in> set es"
    then have "fst x \<in> set (map fst es)" by simp
    moreover have "fst e \<notin> set (map fst es)" using Cons.prems(2) by simp
    ultimately have "fst x \<noteq> fst e" by metis
    moreover have "fst x \<notin> fst ` set (sessions s)" using Cons.prems(3) x by simp
    ultimately show "fst x \<notin> fst ` set (sessions ?s1)" unfolding keys by simp
  qed
  have rest: "fst (storeView (loadEntries (map (\<lambda>e. storedSession st (snd e)) es) ?s1)) =
     fst (storeView ?s1) @ map (\<lambda>e. (fst e, normaliseSession (snapshot st (snd e)))) es"
    using c1 _ f1
  proof (rule Cons.IH)
    show "distinct (map fst es)" using Cons.prems(2) by simp
    show "\<forall>e \<in> set es. fst e \<noteq> [] \<and> s_id (sessionObjs st (snd e)) = fst e \<and>
       list_all (\<lambda>m. m_id m \<noteq> [] \<and> m_content m \<noteq> []) (messagesOf st (snd e))"
      using Cons.prems(4) by simp
  qed
  have step: "loadEntries (map (\<lambda>e. storedSession st (snd e)) (e # es)) s =
      loadEntries (map (\<lambda>e. storedSession st (snd e)) es) ?s1"
    using t by simp
  show ?case unfolding step rest one by simp
qed

lemma saveSessions_blob:
  assumes "[] \<notin> fst ` set (sessions st)"
  shows "globalState (saveSessions st) = map (\<lambda>e. storedSession st (snd e)) (sessions st)"
proof -
  have "List.map_filter (saveEntry st) es = map (\<lambda>e. storedSession st (snd e)) es"
    if "[] \<notin> fst ` set es" for es
    using that by (induction es) (auto simp: List.map_filter_simps saveEntry_def)
  with assms show ?thesis by (simp add: saveSessions_def)
qed

lemma loadSessions_view:
  "fst (storeView (loadSessions m)) =
     fst (storeView (loadEntries (globalState m) (m\<lparr>sessions := []\<rparr>)))"
  by (simp add: loadSessions_def Let_def storeView_def snapshot_def messagesOf_def
      split: list.splits)

section \<open>Persisting and loading\<close>

text \<open>
  Claim C3, as amended. For a consistent store whose session ids are not empty and whose
  messages all have a non-empty id and a non-empty content, loading the blob that
  \<^verbatim>\<open>saveSessions\<close> writes yields the same session ids in the same order, each with its title
  (\<^verbatim>\<open>Untitled\<close> for an empty one), mode and dates, and with the same messages in the same order,
  equal in id, role, content and timestamp, their optional fields defaulted (no citations
  become the empty list, no mode becomes \<^verbatim>\<open>general\<close>, no streaming flag becomes false).
\<close>

theorem save_load_roundtrip:
  assumes "consistent st"
    and "[] \<notin> fst ` set (sessions st)"
    and "list_all (\<lambda>e. list_all (\<lambda>m. m_id m \<noteq> [] \<and> m_content m \<noteq> []) (messagesOf st (snd e)))
           (sessions st)"
    and "globalState m = globalState (saveSessions st)"
  shows "fst (storeView (loadSessions m)) =
     map (\<lambda>e. (fst e, normaliseSession (snapshot st (snd e)))) (sessions st)"
proof -
  have c0: "consistent (m\<lparr>sessions := []\<rparr>)" by (simp add: consistent_def)
  have main: "fst (storeView (loadEntries (map (\<lambda>e. storedSession st (snd e)) (sessions st))
        (m\<lparr>sessions := []\<rparr>))) =
      fst (storeView (m\<lparr>sessions := []\<rparr>)) @
      map (\<lambda>e. (fst e, normaliseSession (snapshot st (snd e)))) (sessions st)"
    using c0
  proof (rule loadEntries_saved)
    show "distinct (map fst (sessions st))" using assms(1) by (simp add: consistent_def)
    show "\<forall>e \<in> set (sessions st). fst e \<notin> fst ` set (sessions (m\<lparr>sessions := []\<rparr>))" by simp
    show "\<forall>e \<in> set (sessions st). fst e \<noteq> [] \<and> s_id (sessionObjs st (snd e)) = fst e \<and>
       list_all (\<lambda>m. m_id m \<noteq> [] \<and> m_content m \<noteq> []) (messagesOf st (snd e))"
    proof
      fix e assume e: "e \<in> set (sessions st)"
      then have "fst e \<noteq> []" using assms(2) by (metis imageI)
      moreover have "s_id (sessionObjs st (snd e)) = fst e"
        using consistentD(2) [OF assms(1), of "fst e" "snd e"] e by simp
      moreover have "list_all (\<lambda>m. m_id m \<noteq> [] \<and> m_content m \<noteq> []) (messagesOf st (snd e))"
        using assms(3) e by (simp add: list_all_iff)
      ultimately show "fst e \<noteq> [] \<and> s_id (sessionObjs st (snd e)) = fst e \<and>
       list_all (\<lambda>m. m_id m \<noteq> [] \<and> m_content m \<noteq> []) (messagesOf st (snd e))" by blast
    qed
  qed
  have nil: "fst (storeView (m\<lparr>sessions := []\<rparr>)) = []"
    by (simp add: storeView_def)
  have blob: "globalState m = map (\<lambda>e. storedSession st (snd e)) (sessions st)"
    unfolding assms(4) using assms(2) by (rule saveSessions_blob)
  have "fst (storeView (loadSessions m)) =
      fst (storeView (loadEntries (globalState m) (m\<lparr>sessions := []\<rparr>)))"
    by (rule loadSessions_view)
  also have "\<dots> = [] @ map (\<lambda>e. (fst e, normaliseSession (snapshot st (snd e)))) (sessions st)"
    unfolding blob main nil ..
  finally show ?thesis by simp
qed

lemmas send_defs = sendMessage_def sendMessage_begin_def ensureSession_def currentSessionObj_def
  addUserMessage_def pushUserMessage_def updateTitle_def addPlaceholder_def sendMessage_end_def
  truthy_def messagesOf_def snapshot_def saveSessions_def saveEntry_def storedSession_def
  toStored_def getSystemMessage_def prepareMessagesForAPI_def

lemma demoSilent_sessions: "sessions demoSilent = [(''u'', 1)]"
  by (simp add: demoSilent_def send_defs demo_defs List.map_filter_simps)

lemma demoSilent_messages:
  "map (\<lambda>m. (m_role m, m_content m, m_citations m)) (messagesOf demoSilent 1) =
     [(System, systemMessages General, None), (User, ''hello'', None), (Assistant, [], None)]"
  by (simp add: demoSilent_def send_defs demo_defs List.map_filter_simps)

lemma demoSilent_blob:
  "globalState demoSilent =
    [\<lparr>ss_id = Some ''u'', ss_title = Some ''hello'',
      ss_messages = Some
        [\<lparr>sm_id = Some ''uu'', sm_role = Some System, sm_content = Some (systemMessages General),
          sm_timestamp = Some 1002, sm_citations = None, sm_mode = None, sm_streaming = None\<rparr>,
         \<lparr>sm_id = Some ''uuu'', sm_role = Some User, sm_content = Some ''hello'',
          sm_timestamp = Some 1003, sm_citations = None, sm_mode = Some General,
          sm_streaming = None\<rparr>,
         \<lparr>sm_id = Some ''uuuu'', sm_role = Some Assistant, sm_content = Some [],
          sm_timestamp = Some 1005, sm_citations = None, sm_mode = None,
          sm_streaming = Some False\<rparr>],
      ss_createdAt = Some 1000, ss_updatedAt = Some 1006, ss_mode = Some General\<rparr>]"
  by (simp add: demoSilent_def send_defs demo_defs List.map_filter_simps generateSessionTitle_def
      trim_def isWhiteSpace_def splitWhitespace.simps eval_nat_numeral)

lemma demoSilent_saved: "globalState (saveSessions demoSilent) = globalState demoSilent"
  unfolding demoSilent_blob
  by (simp add: demoSilent_def send_defs demo_defs List.map_filter_simps generateSessionTitle_def
      trim_def isWhiteSpace_def splitWhitespace.simps eval_nat_numeral)

lemmas load_defs = newChatManager_def loadSessions_def loadEntry_def dateOrNow_def
  getAllSessions_def emptyManager_def storeView_def snapshot_def messagesOf_def truthy_def
  orDefault_def allocMessage_def allocArray_def allocSession_def Let_def split_def

text \<open>
  Claim C3 as stated fails: after a message whose stream ended without content the session
  has three messages, the last an assistant message with empty content; the saved blob holds
  all three, and loading it yields two, because the load filter tests the content for
  truthiness. The messages that are loaded have an empty citation list where the saved ones
  had none.
\<close>

theorem save_load_counterexample:
  "map (\<lambda>m. (m_role m, m_content m, m_citations m)) (messagesOf demoSilent 1) =
     [(System, systemMessages General, None), (User, ''hello'', None), (Assistant, [], None)] \<and>
   map (\<lambda>v. (fst v, map (\<lambda>m. (m_role m, m_content m, m_citations m)) (s_messages (snd v))))
     (fst (storeView (newChatManager (globalState (saveSessions demoSilent)) demoUuid demoClock))) =
     [(''u'', [(System, systemMessages General, Some []), (User, ''hello'', Some [])])]"
proof -
  have "map (\<lambda>v. (fst v, map (\<lambda>m. (m_role m, m_content m, m_citations m)) (s_messages (snd v))))
     (fst (storeView (newChatManager (globalState (saveSessions demoSilent)) demoUuid demoClock))) =
     [(''u'', [(System, systemMessages General, Some []), (User, ''hello'', Some [])])]"
    unfolding demoSilent_saved demoSilent_blob
    by (simp add: load_defs systemMessages_def)
  with demoSilent_messages show ?thesis by simp
qed

lemma demoTwo_views:
  "map (\<lambda>e. (fst e, s_title (snapshot demoTwo (snd e)), s_mode (snapshot demoTwo (snd e)),
       map (\<lambda>m. (m_id m, m_role m, m_content m)) (s_messages (snapshot demoTwo (snd e)))))
     (sessions demoTwo) =
   [(''u'', ''New Chat'', General, [(''uu'', System, systemMessages General)]),
    (''uuu'', ''New Chat'', Debug, [(''uuuu'', System, systemMessages Debug)])]"
  by (simp add: demoTwo_def demoOne_def demo_defs snapshot_def messagesOf_def
      saveSessions_def eval_nat_numeral)

theorem save_load_roundtrip_witness:
  "consistent demoTwo \<and> [] \<notin> fst ` set (sessions demoTwo) \<and>
   list_all (\<lambda>e. list_all (\<lambda>m. m_id m \<noteq> [] \<and> m_content m \<noteq> []) (messagesOf demoTwo (snd e)))
     (sessions demoTwo) \<and>
   map (\<lambda>v. (fst v, s_title (snd v), s_mode (snd v),
          map (\<lambda>m. (m_id m, m_role m, m_content m)) (s_messages (snd v))))
     (fst (storeView (newChatManager (globalState (saveSessions demoTwo)) demoUuid demoClock))) =
   [(''u'', ''New Chat'', General, [(''uu'', System, systemMessages General)]),
    (''uuu'', ''New Chat'', Debug, [(''uuuu'', System, systemMessages Debug)])]"
proof -
  let ?m = "emptyManager (globalState (saveSessions demoTwo)) demoUuid 0 demoClock 0"
  have h2: "[] \<notin> fst ` set (sessions demoTwo)" by (simp add: demoTwo_sessions)
  have h3: "list_all (\<lambda>e. list_all (\<lambda>m. m_id m \<noteq> [] \<and> m_content m \<noteq> [])
      (messagesOf demoTwo (snd e))) (sessions demoTwo)"
  proof -
    have "list_all (\<lambda>t. list_all (\<lambda>x. fst x \<noteq> [] \<and> snd (snd x) \<noteq> []) (snd (snd (snd t))))
       (map (\<lambda>e. (fst e, s_title (snapshot demoTwo (snd e)), s_mode (snapshot demoTwo (snd e)),
       map (\<lambda>m. (m_id m, m_role m, m_content m)) (s_messages (snapshot demoTwo (snd e)))))
     (sessions demoTwo))"
      unfolding demoTwo_views by (simp add: systemMessages_def)
    then show ?thesis by (simp add: list_all_iff snapshot_def)
  qed
  have h4: "globalState ?m = globalState (saveSessions demoTwo)" by (simp add: emptyManager_def)
  have "fst (storeView (loadSessions ?m)) =
      map (\<lambda>e. (fst e, normaliseSession (snapshot demoTwo (snd e)))) (sessions demoTwo)"
    using demoTwo_consistent h2 h3 h4 by (rule save_load_roundtrip)
  then have "map (\<lambda>v. (fst v, s_title (snd v), s_mode (snd v),
          map (\<lambda>m. (m_id m, m_role m, m_content m)) (s_messages (snd v))))
     (fst (storeView (newChatManager (globalState (saveSessions demoTwo)) demoUuid demoClock))) =
     map (\<lambda>e. (fst e, s_title (snapshot demoTwo (snd e)), s_mode (snapshot demoTwo (snd e)),
       map (\<lambda>m. (m_id m, m_role m, m_content m)) (s_messages (snapshot demoTwo (snd e)))))
     (sessions demoTwo)"
    unfolding newChatManager_def
    by (simp add: normaliseSession_def normaliseMessage_def comp_def orDefault_def snapshot_def
        demoTwo_sessions demoTwo_def demoOne_def demo_defs)
  then show ?thesis unfolding demoTwo_views using demoTwo_consistent h2 h3 by simp
qed

section \<open>The streaming invariant\<close>

lemma streamingCount_simps [simp]:
  "streamingCount [] = 0"
  "streamingCount (m # ms) = (if m_streaming m = Some True then Suc (streamingCount ms) else streamingCount ms)"
  "streamingCount (xs @ ys) = streamingCount xs + streamingCount ys"
  by (simp_all add: streamingCount_def)

lemma consistent_modify:
  assumes "consistent st" "sessions st' = sessions st" "nextAddr st \<le> nextAddr st'"
    and ids: "\<And>e. e \<in> set (sessions st) \<Longrightarrow>
           s_id (sessionObjs st' (snd e)) = s_id (sessionObjs st (snd e))"
    and arrs: "\<And>e. e \<in> set (sessions st) \<Longrightarrow> snd e \<noteq> session \<Longrightarrow>
           s_messages (sessionObjs st' (snd e)) = s_messages (sessionObjs st (snd e))"
    and own: "s_messages (sessionObjs st' session) = s_messages (sessionObjs st session) \<or>
           nextAddr st \<le> s_messages (sessionObjs st' session) \<and>
           s_messages (sessionObjs st' session) < nextAddr st'"
    and elems: "\<And>e. e \<in> set (sessions st) \<Longrightarrow>
           \<forall>m \<in> set (arrayObjs st' (s_messages (sessionObjs st' (snd e)))). m < nextAddr st'"
  shows "consistent st'"
proof -
  let ?g = "\<lambda>e. s_messages (sessionObjs st (snd e))"
  let ?g' = "\<lambda>e. s_messages (sessionObjs st' (snd e))"
  have old: "snd e < nextAddr st \<and> s_id (sessionObjs st (snd e)) = fst e \<and> ?g e < nextAddr st"
    if "e \<in> set (sessions st)" for e
    using that assms(1) unfolding consistent_def by blast
  have d: "distinct (map fst (sessions st))" "distinct (map snd (sessions st))"
    "distinct (map ?g (sessions st))"
    using assms(1) by (simp_all add: consistent_def)
  have inj_snd: "inj_on snd (set (sessions st))" and inj_g: "inj_on ?g (set (sessions st))"
    and ds: "distinct (sessions st)"
    using d by (auto simp: distinct_map)
  have g': "?g' e = ?g e \<or> (snd e = session \<and> nextAddr st \<le> ?g' e \<and> ?g' e < nextAddr st')"
    if "e \<in> set (sessions st)" for e
    using arrs [OF that] own by (cases "snd e = session") auto
  have "inj_on ?g' (set (sessions st))"
  proof (rule inj_onI)
    fix x y assume x: "x \<in> set (sessions st)" and y: "y \<in> set (sessions st)"
      and eq: "?g' x = ?g' y"
    show "x = y"
    proof (cases "snd x = session")
      case True
      show ?thesis
      proof (cases "snd y = session")
        case True
        with \<open>snd x = session\<close> inj_snd x y show ?thesis by (auto dest: inj_onD)
      next
        case False
        then have "?g' y = ?g y" using arrs [OF y] by simp
        moreover from g' [OF x] have "?g' x = ?g x \<or> nextAddr st \<le> ?g' x" by auto
        ultimately have "?g x = ?g y"
          using eq old [OF y] by auto
        with inj_g x y show ?thesis by (auto dest: inj_onD)
      qed
    next
      case False
      then have gx: "?g' x = ?g x" using arrs [OF x] by simp
      from g' [OF y] have "?g' y = ?g y \<or> nextAddr st \<le> ?g' y" by auto
      then have "?g x = ?g y" using eq gx old [OF x] by auto
      with inj_g x y show ?thesis by (auto dest: inj_onD)
    qed
  qed
  with ds have d3: "distinct (map ?g' (sessions st))" by (simp add: distinct_map)
  have all: "snd e < nextAddr st' \<and> s_id (sessionObjs st' (snd e)) = fst e \<and> ?g' e < nextAddr st' \<and>
      (\<forall>m \<in> set (arrayObjs st' (?g' e)). m < nextAddr st')" if "e \<in> set (sessions st)" for e
    using old [OF that] ids [OF that] g' [OF that] elems [OF that] assms(3) by auto
  show ?thesis
    unfolding consistent_def assms(2) using d(1,2) d3 all by blast
qed

lemma messagesOf_frame:
  assumes "consistent st" "e \<in> set (sessions st)"
    "s_messages (sessionObjs st' (snd e)) = s_messages (sessionObjs st (snd e))"
    "arrayObjs st' (s_messages (sessionObjs st (snd e))) =
       arrayObjs st (s_messages (sessionObjs st (snd e)))"
    "\<forall>x. x < nextAddr st \<longrightarrow> messageObjs st' x = messageObjs st x"
  shows "messagesOf st' (snd e) = messagesOf st (snd e)"
proof -
  have "\<forall>m \<in> set (arrayObjs st (s_messages (sessionObjs st (snd e)))). m < nextAddr st"
    using assms(1,2) consistentD(4) [of st "fst e" "snd e"] by simp
  then have "map (messageObjs st') (arrayObjs st (s_messages (sessionObjs st (snd e)))) =
      map (messageObjs st) (arrayObjs st (s_messages (sessionObjs st (snd e))))"
    using assms(5) by (intro map_cong) auto
  then show ?thesis by (simp add: messagesOf_def assms(3,4))
qed

lemma blobQuiet_save:
  assumes "quiet st"
  shows "blobQuiet (globalState (saveSessions st))"
proof -
  have "list_all (\<lambda>msg. sm_streaming msg \<noteq> Some True) (storedMessages d)"
    if "d \<in> set (List.map_filter (saveEntry st) (sessions st))" for d
  proof -
    from that obtain e where e: "e \<in> set (sessions st)" and d: "saveEntry st e = Some d"
      by (auto simp: List.map_filter_def)
    then have "d = storedSession st (snd e)"
      by (auto simp: saveEntry_def split: prod.splits if_splits)
    moreover have "streamingCount (messagesOf st (snd e)) = 0"
      using assms e by (simp add: quiet_def list_all_iff)
    ultimately show ?thesis
      by (auto simp: storedMessages_def storedSession_def list_all_iff toStored_def
          streamingCount_def filter_empty_conv)
  qed
  then show ?thesis by (simp add: blobQuiet_def saveSessions_def list_all_iff)
qed

lemma messagesOf_save [simp]: "messagesOf (saveSessions st) a = messagesOf st a"
  by (simp add: messagesOf_def)

lemma messagesOf_fire [simp]: "messagesOf (fire ev st) a = messagesOf st a"
  by (simp add: messagesOf_def)

lemma fired_fire: "fired (fire ev st) = fired st @ [map_option (snapshot st) ev]"
  by (simp add: fire_def)

lemma observed_snapshot [simp]:
  "observedAtMostOne (Some (snapshot st a)) \<longleftrightarrow> streamingCount (messagesOf st a) \<le> 1"
  "observedAtMostOne None"
  by (simp_all add: observedAtMostOne_def snapshot_def)

lemma streamingCount_messagesOf:
  "streamingCount (messagesOf st a) =
     length (filter (\<lambda>x. m_streaming (messageObjs st x) = Some True)
       (arrayObjs st (s_messages (sessionObjs st a))))"
  by (simp add: streamingCount_def messagesOf_def filter_map o_def)

lemma saveEntry_cong:
  assumes "sessionObjs s = sessionObjs t" "arrayObjs s = arrayObjs t" "messageObjs s = messageObjs t"
  shows "saveEntry s = saveEntry t"
  by (rule ext) (simp add: saveEntry_def storedSession_def messagesOf_def assms split: prod.splits)

lemma saved_cong:
  assumes "globalState s = globalState (saveSessions t)" "sessions s = sessions t"
    "sessionObjs s = sessionObjs t" "arrayObjs s = arrayObjs t" "messageObjs s = messageObjs t"
  shows "globalState s = globalState (saveSessions s)"
  using assms saveEntry_cong [OF assms(3,4,5)] by (simp add: saveSessions_def)

lemma sequentialInvariantI:
  assumes "consistent st" "quiet st" "globalState st = globalState (saveSessions st)"
    "list_all observedAtMostOne (fired st)"
  shows "sequentialInvariant st"
  using assms blobQuiet_save [OF assms(2)] by (simp add: sequentialInvariant_def)

lemma count_frame:
  assumes "consistent st" "e \<in> set (sessions st)"
    and "\<forall>x. x < nextAddr st \<longrightarrow> s_messages (sessionObjs st' x) = s_messages (sessionObjs st x)"
    and "\<forall>x. x < nextAddr st \<longrightarrow> arrayObjs st' x = arrayObjs st x"
    and "\<forall>x. x < nextAddr st \<longrightarrow>
           m_streaming (messageObjs st' x) = m_streaming (messageObjs st x)"
  shows "streamingCount (messagesOf st' (snd e)) = streamingCount (messagesOf st (snd e))"
proof -
  note c = consistentD [OF assms(1), of "fst e" "snd e"]
  have b: "snd e < nextAddr st" "s_messages (sessionObjs st (snd e)) < nextAddr st"
    "\<forall>m \<in> set (arrayObjs st (s_messages (sessionObjs st (snd e)))). m < nextAddr st"
    using c assms(2) by simp_all
  have 1: "s_messages (sessionObjs st' (snd e)) = s_messages (sessionObjs st (snd e))"
    using assms(3) b(1) by simp
  have 2: "arrayObjs st' (s_messages (sessionObjs st (snd e))) =
      arrayObjs st (s_messages (sessionObjs st (snd e)))"
    using assms(4) b(2) by simp
  have "filter (\<lambda>x. m_streaming (messageObjs st' x) = Some True)
          (arrayObjs st (s_messages (sessionObjs st (snd e)))) =
        filter (\<lambda>x. m_streaming (messageObjs st x) = Some True)
          (arrayObjs st (s_messages (sessionObjs st (snd e))))"
    using b(3) assms(5) by (intro filter_cong) auto
  then show ?thesis by (simp add: streamingCount_messagesOf 1 2)
qed

lemma quiet_sub:
  assumes "consistent st" "quiet st" "set (sessions st') \<subseteq> set (sessions st)"
    and "\<forall>x. x < nextAddr st \<longrightarrow> s_messages (sessionObjs st' x) = s_messages (sessionObjs st x)"
    and "\<forall>x. x < nextAddr st \<longrightarrow> arrayObjs st' x = arrayObjs st x"
    and "\<forall>x. x < nextAddr st \<longrightarrow>
           m_streaming (messageObjs st' x) = m_streaming (messageObjs st x)"
  shows "quiet st'"
proof -
  have "streamingCount (messagesOf st' (snd e)) = 0" if "e \<in> set (sessions st')" for e
  proof -
    from that assms(3) have e: "e \<in> set (sessions st)" by auto
    with assms(2) have "streamingCount (messagesOf st (snd e)) = 0"
      by (simp add: quiet_def list_all_iff)
    then show ?thesis using count_frame [OF assms(1) e assms(4,5,6)] by simp
  qed
  then show ?thesis by (simp add: quiet_def list_all_iff)
qed

lemma consistent_sub:
  assumes "consistent st" "sessions st' = filter P (sessions st)" "nextAddr st \<le> nextAddr st'"
    and "\<forall>x. x < nextAddr st \<longrightarrow> s_id (sessionObjs st' x) = s_id (sessionObjs st x)"
    and "\<forall>x. x < nextAddr st \<longrightarrow> s_messages (sessionObjs st' x) = s_messages (sessionObjs st x)"
    and "\<forall>x. x < nextAddr st \<longrightarrow> arrayObjs st' x = arrayObjs st x"
  shows "consistent st'"
proof -
  let ?g = "\<lambda>e. s_messages (sessionObjs st (snd e))"
  let ?g' = "\<lambda>e. s_messages (sessionObjs st' (snd e))"
  have old: "snd e < nextAddr st \<and> s_id (sessionObjs st (snd e)) = fst e \<and> ?g e < nextAddr st \<and>
      (\<forall>m \<in> set (arrayObjs st (?g e)). m < nextAddr st)"
    if "e \<in> set (sessions st)" for e
    using that assms(1) unfolding consistent_def by blast
  have d: "distinct (map fst (sessions st))" "distinct (map snd (sessions st))"
    "distinct (map ?g (sessions st))"
    using assms(1) by (simp_all add: consistent_def)
  have eq: "map ?g' (filter P (sessions st)) = map ?g (filter P (sessions st))"
    using old assms(5) by (intro map_cong) auto
  have d': "distinct (map fst (filter P (sessions st)))"
    "distinct (map snd (filter P (sessions st)))"
    "distinct (map ?g' (filter P (sessions st)))"
    unfolding eq using d by (simp_all add: distinct_map_filter)
  have all: "snd e < nextAddr st' \<and> s_id (sessionObjs st' (snd e)) = fst e \<and>
      ?g' e < nextAddr st' \<and> (\<forall>m \<in> set (arrayObjs st' (?g' e)). m < nextAddr st')"
    if "e \<in> set (filter P (sessions st))" for e
  proof -
    from that have e: "e \<in> set (sessions st)" by simp
    note o = old [OF e]
    have 1: "?g' e = ?g e" using assms(5) o by simp
    have 2: "arrayObjs st' (?g e) = arrayObjs st (?g e)" using assms(6) o by simp
    have 3: "s_id (sessionObjs st' (snd e)) = fst e" using assms(4) o by simp
    show ?thesis unfolding 1 2 using o 3 assms(3) by auto
  qed
  show ?thesis
    unfolding consistent_def assms(2) using d' all by blast
qed

lemma newSession_effect:
  "fst (newSession title mode st) = (uuidSource st (uuidCalls st), Suc (nextAddr st))"
  "sessions (snd (newSession title mode st)) =
     AList.update (uuidSource st (uuidCalls st)) (Suc (nextAddr st)) (sessions st)"
  "nextAddr (snd (newSession title mode st)) = Suc (Suc (Suc (nextAddr st)))"
  "sessionObjs (snd (newSession title mode st)) =
     (sessionObjs st)(Suc (nextAddr st) := sessionObjs (snd (newSession title mode st)) (Suc (nextAddr st)))"
  "s_id (sessionObjs (snd (newSession title mode st)) (Suc (nextAddr st))) = uuidSource st (uuidCalls st)"
  "s_messages (sessionObjs (snd (newSession title mode st)) (Suc (nextAddr st))) = nextAddr st"
  "arrayObjs (snd (newSession title mode st)) = (arrayObjs st)(nextAddr st := [Suc (Suc (nextAddr st))])"
  "messageObjs (snd (newSession title mode st)) =
     (messageObjs st)(Suc (Suc (nextAddr st)) :=
        messageObjs (snd (newSession title mode st)) (Suc (Suc (nextAddr st))))"
  "m_streaming (messageObjs (snd (newSession title mode st)) (Suc (Suc (nextAddr st)))) = None"
  "globalState (snd (newSession title mode st)) = globalState st"
  "fired (snd (newSession title mode st)) = fired st"
  by (simp_all add: newSession_def addSystemMessage_def prim_defs Let_def split_def)

lemma createNewSession_unfold:
  "snd (createNewSession title mode st) =
     fire (Some (snd (fst (newSession title mode st)))) (saveSessions (snd (newSession title mode st)))"
  by (simp add: createNewSession_def Let_def split_def)

lemma createNewSession_invariant:
  assumes "sequentialInvariant st"
  shows "sequentialInvariant (snd (createNewSession title mode st))"
proof (rule sequentialInvariantI)
  let ?N = "snd (newSession title mode st)"
  let ?S = "snd (createNewSession title mode st)"
  let ?n = "nextAddr st"
  note e = newSession_effect [of title mode st]
  note u = createNewSession_unfold [of title mode st]
  from assms have c: "consistent st" and q: "quiet st"
    and f: "list_all observedAtMostOne (fired st)"
    by (simp_all add: sequentialInvariant_def)
  have heap: "sessions ?S = sessions ?N" "sessionObjs ?S = sessionObjs ?N"
    "arrayObjs ?S = arrayObjs ?N" "messageObjs ?S = messageObjs ?N" "nextAddr ?S = nextAddr ?N"
    by (simp_all add: u)
  show cS: "consistent ?S"
  proof (rule consistent_update [OF c, where a = "Suc ?n" and arr = ?n])
    show "sessions ?S = AList.update (uuidSource st (uuidCalls st)) (Suc ?n) (sessions st)"
      by (simp add: heap e(2))
    show "sessionObjs ?S = (sessionObjs st)(Suc ?n := sessionObjs ?N (Suc ?n))"
      unfolding heap by (rule e(4))
    show "s_id (sessionObjs ?N (Suc ?n)) = uuidSource st (uuidCalls st)" by (rule e(5))
    show "s_messages (sessionObjs ?N (Suc ?n)) = ?n" by (rule e(6))
  qed (simp_all add: heap e(3,7))
  have new: "messagesOf ?S (Suc ?n) = [messageObjs ?N (Suc (Suc ?n))]"
    by (simp add: messagesOf_def heap e(6,7))
  have cnt: "streamingCount (messagesOf ?S (Suc ?n)) = 0"
    by (simp add: new e(9))
  have "streamingCount (messagesOf ?S (snd x)) = 0" if "x \<in> set (sessions ?S)" for x
  proof -
    from that have "x = (uuidSource st (uuidCalls st), Suc ?n) \<or> x \<in> set (sessions st)"
      using set_update_subset [of "uuidSource st (uuidCalls st)" "Suc ?n" "sessions st"]
      by (auto simp: heap e(2))
    then show ?thesis
    proof
      assume "x = (uuidSource st (uuidCalls st), Suc ?n)"
      then show ?thesis by (simp add: cnt)
    next
      assume x: "x \<in> set (sessions st)"
      with q have "streamingCount (messagesOf st (snd x)) = 0"
        by (simp add: quiet_def list_all_iff)
      moreover have "streamingCount (messagesOf ?S (snd x)) = streamingCount (messagesOf st (snd x))"
      proof (rule count_frame [OF c x])
        show "\<forall>y. y < ?n \<longrightarrow> s_messages (sessionObjs ?S y) = s_messages (sessionObjs st y)"
          unfolding heap by (subst e(4)) simp
        show "\<forall>y. y < ?n \<longrightarrow> arrayObjs ?S y = arrayObjs st y"
          by (simp add: heap e(7))
        show "\<forall>y. y < ?n \<longrightarrow> m_streaming (messageObjs ?S y) = m_streaming (messageObjs st y)"
          unfolding heap by (subst e(8)) simp
      qed
      ultimately show ?thesis by simp
    qed
  qed
  then show "quiet ?S" by (simp add: quiet_def list_all_iff)
  show "globalState ?S = globalState (saveSessions ?S)"
    by (rule saved_cong [where t = ?N]) (simp_all add: u)
  have "fired ?S = fired st @ [Some (snapshot (saveSessions ?N) (Suc ?n))]"
    by (simp add: u fired_fire e(1,11))
  moreover have "streamingCount (messagesOf (saveSessions ?N) (Suc ?n)) = 0"
    using cnt by (simp add: u)
  ultimately show "list_all observedAtMostOne (fired ?S)"
    using f by simp
qed

lemma quiet_count:
  "quiet st \<Longrightarrow> (k, a) \<in> set (sessions st) \<Longrightarrow> streamingCount (messagesOf st a) = 0"
  by (auto simp: quiet_def list_all_iff)

lemma switchToSession_effect:
  "sessions (snd (switchToSession sessionId st)) = sessions st"
  "arrayObjs (snd (switchToSession sessionId st)) = arrayObjs st"
  "messageObjs (snd (switchToSession sessionId st)) = messageObjs st"
  "globalState (snd (switchToSession sessionId st)) = globalState st"
  "nextAddr st \<le> nextAddr (snd (switchToSession sessionId st))"
  "\<forall>x. x < nextAddr st \<longrightarrow> sessionObjs (snd (switchToSession sessionId st)) x = sessionObjs st x"
  by (simp_all add: switchToSession_def prim_defs Let_def split_def split: option.splits)

lemma switchToSession_fired:
  "fired (snd (switchToSession sessionId st)) = fired st \<or>
   (\<exists>session v. map_of (sessions st) sessionId = Some session \<and>
      fired (snd (switchToSession sessionId st)) = fired st @ [Some v] \<and>
      s_messages v = messagesOf st session)"
  by (simp add: switchToSession_def prim_defs Let_def split_def snapshot_def messagesOf_def
      split: option.splits)

lemma switchToSession_invariant:
  assumes "sequentialInvariant st"
  shows "sequentialInvariant (snd (switchToSession sessionId st))"
proof -
  let ?S = "snd (switchToSession sessionId st)"
  note e = switchToSession_effect [where sessionId = sessionId and st = st]
  from assms have c: "consistent st" and q: "quiet st" and b: "blobQuiet (globalState st)"
    and f: "list_all observedAtMostOne (fired st)"
    by (simp_all add: sequentialInvariant_def)
  have s: "sessions ?S = filter (\<lambda>_. True) (sessions st)" by (simp add: e(1))
  have cS: "consistent ?S"
    by (rule consistent_sub [OF c s e(5)]) (simp_all add: e)
  have qS: "quiet ?S"
    by (rule quiet_sub [OF c q]) (simp_all add: e)
  have fS: "list_all observedAtMostOne (fired ?S)"
    using switchToSession_fired [of sessionId st]
  proof
    assume "fired ?S = fired st"
    with f show ?thesis by simp
  next
    assume "\<exists>session v. map_of (sessions st) sessionId = Some session \<and>
      fired ?S = fired st @ [Some v] \<and> s_messages v = messagesOf st session"
    then obtain session v where m: "map_of (sessions st) sessionId = Some session"
      and fr: "fired ?S = fired st @ [Some v]" and v: "s_messages v = messagesOf st session"
      by blast
    from m have "(sessionId, session) \<in> set (sessions st)" by (rule map_of_SomeD)
    with q have "streamingCount (messagesOf st session) = 0" by (rule quiet_count)
    with f show ?thesis by (simp add: fr observedAtMostOne_def v)
  qed
  show ?thesis
    using cS qS fS b by (simp add: sequentialInvariant_def e(4))
qed

lemma delete_filter: "AList.delete k xs = filter (\<lambda>e. fst e \<noteq> k) xs"
  by (induction xs) auto

lemma deleteSession_effect:
  assumes "sessionId \<noteq> []" "map_of (sessions st) sessionId \<noteq> None"
  shows "sessions (deleteSession sessionId st) = AList.delete sessionId (sessions st)"
    "arrayObjs (deleteSession sessionId st) = arrayObjs st"
    "messageObjs (deleteSession sessionId st) = messageObjs st"
    "nextAddr st \<le> nextAddr (deleteSession sessionId st)"
    "\<forall>x. x < nextAddr st \<longrightarrow> sessionObjs (deleteSession sessionId st) x = sessionObjs st x"
  using assms
  by (auto simp: deleteSession_def getCurrentSession_def getSession_def copySession_def prim_defs
      Let_def split_def split: option.splits list.splits)

lemma deleteSession_blob:
  assumes "sessionId \<noteq> []" "map_of (sessions st) sessionId \<noteq> None"
  shows "globalState (deleteSession sessionId st) =
     globalState (saveSessions (st\<lparr>sessions := AList.delete sessionId (sessions st)\<rparr>))"
proof -
  have s: "saveEntry (st\<lparr>sessions := xs, currentSessionId := c\<rparr>) = saveEntry st"
    "saveEntry (st\<lparr>sessions := xs\<rparr>) = saveEntry st" for xs c
    by (rule saveEntry_cong; simp)+
  show ?thesis
    using assms
    by (auto simp: deleteSession_def getCurrentSession_def getSession_def copySession_def prim_defs
        saveSessions_def s Let_def split_def split: option.splits list.splits)
qed

lemma deleteSession_fired:
  assumes "sessionId \<noteq> []" "map_of (sessions st) sessionId \<noteq> None"
  shows "fired (deleteSession sessionId st) = fired st @ [None] \<or>
   (\<exists>k session v. map_of (AList.delete sessionId (sessions st)) k = Some session \<and>
      fired (deleteSession sessionId st) = fired st @ [Some v] \<and>
      s_messages v = messagesOf st session)"
  using assms
  by (auto simp: deleteSession_def getCurrentSession_def getSession_def copySession_def prim_defs
      snapshot_def messagesOf_def saveSessions_def Let_def split_def
      split: option.splits list.splits)

lemma deleteSession_invariant:
  assumes "sequentialInvariant st"
  shows "sequentialInvariant (deleteSession sessionId st)"
proof (cases "sessionId = [] \<or> map_of (sessions st) sessionId = None")
  case True
  then have "deleteSession sessionId st = st" by (auto simp: deleteSession_def)
  with assms show ?thesis by simp
next
  case False
  then have n: "sessionId \<noteq> []" "map_of (sessions st) sessionId \<noteq> None" by simp_all
  let ?S = "deleteSession sessionId st"
  let ?T = "st\<lparr>sessions := AList.delete sessionId (sessions st)\<rparr>"
  note e = deleteSession_effect [OF n]
  from assms have c: "consistent st" and q: "quiet st"
    and f: "list_all observedAtMostOne (fired st)"
    by (simp_all add: sequentialInvariant_def)
  have sub: "set (AList.delete sessionId (sessions st)) \<subseteq> set (sessions st)"
    by (auto simp: delete_filter)
  have s: "sessions ?S = filter (\<lambda>e. fst e \<noteq> sessionId) (sessions st)"
    by (simp add: e(1) delete_filter)
  have cS: "consistent ?S"
    by (rule consistent_sub [OF c s e(4)]) (simp_all add: e)
  have qS: "quiet ?S"
    by (rule quiet_sub [OF c q]) (simp_all add: e sub)
  have qT: "quiet ?T"
    by (rule quiet_sub [OF c q]) (simp_all add: sub)
  have bS: "blobQuiet (globalState ?S)"
    unfolding deleteSession_blob [OF n] using qT by (rule blobQuiet_save)
  have fS: "list_all observedAtMostOne (fired ?S)"
    using deleteSession_fired [OF n]
  proof
    assume "fired ?S = fired st @ [None]"
    with f show ?thesis by simp
  next
    assume "\<exists>k session v. map_of (AList.delete sessionId (sessions st)) k = Some session \<and>
      fired ?S = fired st @ [Some v] \<and> s_messages v = messagesOf st session"
    then obtain k session v where m: "map_of (AList.delete sessionId (sessions st)) k = Some session"
      and fr: "fired ?S = fired st @ [Some v]" and v: "s_messages v = messagesOf st session"
      by blast
    from m have "(k, session) \<in> set (AList.delete sessionId (sessions st))" by (rule map_of_SomeD)
    with sub have "(k, session) \<in> set (sessions st)" by auto
    with q have "streamingCount (messagesOf st session) = 0" by (rule quiet_count)
    with f show ?thesis by (simp add: fr observedAtMostOne_def v)
  qed
  show ?thesis
    using cS qS fS bS by (simp add: sequentialInvariant_def)
qed

lemma clearAllSessions_invariant:
  assumes "sequentialInvariant st"
  shows "sequentialInvariant (clearAllSessions st)"
  using assms
  by (simp add: sequentialInvariant_def clearAllSessions_def consistent_def quiet_def
      blobQuiet_def saveSessions_def fired_fire List.map_filter_def)

lemma loadEntry_frame:
  "globalState (loadEntry d s) = globalState s" "fired (loadEntry d s) = fired s"
  by (rule loadEntry_effect [of d s]; blast)+

lemma loadEntries_frame:
  "globalState (loadEntries ds s) = globalState s" "fired (loadEntries ds s) = fired s"
  by (induction ds arbitrary: s) (simp_all add: loadEntry_frame)

lemma loadEntry_quiet:
  assumes c: "consistent s" and q: "quiet s"
    and b: "list_all (\<lambda>msg. sm_streaming msg \<noteq> Some True) (storedMessages d)"
  shows "quiet (loadEntry d s)"
proof -
  let ?S = "loadEntry d s"
  obtain arr ms obj where e:
    "sessions ?S = AList.update (orDefault (ss_id d) []) (Suc arr) (sessions s)"
    "nextAddr s \<le> arr"
    "sessionObjs ?S = (sessionObjs s)(Suc arr := obj)"
    "s_messages obj = arr"
    "arrayObjs ?S = (arrayObjs s)(arr := ms)"
    "\<forall>x. x < nextAddr s \<longrightarrow> messageObjs ?S x = messageObjs s x"
    "list_all2 loadedFrom (filter keptMessage (storedMessages d)) (map (messageObjs ?S) ms)"
    by (rule loadEntry_effect [of d s]) blast
  have new: "messagesOf ?S (Suc arr) = map (messageObjs ?S) ms"
    by (simp add: messagesOf_def e(3,4,5))
  have "m_streaming m \<noteq> Some True" if "m \<in> set (map (messageObjs ?S) ms)" for m
  proof -
    from that obtain i where i: "i < length ms" "m = messageObjs ?S (ms ! i)"
      by (auto simp: in_set_conv_nth)
    let ?msg = "filter keptMessage (storedMessages d) ! i"
    have len: "length (filter keptMessage (storedMessages d)) = length ms"
      using e(7) by (auto dest: list_all2_lengthD)
    have l: "loadedFrom ?msg m"
      using list_all2_nthD2 [OF e(7), of i] i by simp
    have "?msg \<in> set (filter keptMessage (storedMessages d))"
      using i(1) len by (intro nth_mem) simp
    then have "?msg \<in> set (storedMessages d)" by simp
    with b have "sm_streaming ?msg \<noteq> Some True" by (auto simp: list_all_iff)
    with l show ?thesis by (simp add: loadedFrom_def)
  qed
  then have cnt: "streamingCount (messagesOf ?S (Suc arr)) = 0"
    unfolding new streamingCount_def by (simp add: filter_empty_conv)
  have "streamingCount (messagesOf ?S (snd x)) = 0" if "x \<in> set (sessions ?S)" for x
  proof -
    from that have "x = (orDefault (ss_id d) [], Suc arr) \<or> x \<in> set (sessions s)"
      using set_update_subset [of "orDefault (ss_id d) []" "Suc arr" "sessions s"]
      by (auto simp: e(1))
    then show ?thesis
    proof
      assume "x = (orDefault (ss_id d) [], Suc arr)"
      then show ?thesis by (simp add: cnt)
    next
      assume x: "x \<in> set (sessions s)"
      with q have "streamingCount (messagesOf s (snd x)) = 0"
        by (simp add: quiet_def list_all_iff)
      moreover have "streamingCount (messagesOf ?S (snd x)) = streamingCount (messagesOf s (snd x))"
        by (rule count_frame [OF c x]) (use e(2,6) in \<open>simp_all add: e(3,5)\<close>)
      ultimately show ?thesis by simp
    qed
  qed
  then show ?thesis by (simp add: quiet_def list_all_iff)
qed

lemma loadEntries_quiet:
  "consistent s \<Longrightarrow> quiet s \<Longrightarrow> blobQuiet ds \<Longrightarrow> quiet (loadEntries ds s)"
proof (induction ds arbitrary: s)
  case Nil
  then show ?case by simp
next
  case (Cons d ds)
  from Cons.prems(3) have b: "list_all (\<lambda>msg. sm_streaming msg \<noteq> Some True) (storedMessages d)"
    and bs: "blobQuiet ds"
    by (simp_all add: blobQuiet_def)
  show ?case
  proof (cases "truthy (ss_id d)")
    case True
    have "quiet (loadEntries ds (loadEntry d s))"
      using loadEntry_consistent [OF Cons.prems(1)] loadEntry_quiet [OF Cons.prems(1,2) b] bs
      by (rule Cons.IH)
    with True show ?thesis by simp
  next
    case False
    with Cons.IH [OF Cons.prems(1,2) bs] show ?thesis by simp
  qed
qed

lemma loadSessions_invariant:
  assumes "blobQuiet blob"
  shows "sequentialInvariant (loadSessions (emptyManager blob uu un cl cn))"
proof -
  let ?E = "(emptyManager blob uu un cl cn)\<lparr>sessions := []\<rparr>"
  let ?L = "loadEntries blob ?E"
  have E: "consistent ?E" "quiet ?E"
    by (simp_all add: emptyManager_def consistent_def quiet_def)
  have c: "consistent ?L" using E(1) by (rule loadEntries_consistent)
  have q: "quiet ?L" using E assms by (rule loadEntries_quiet)
  have g: "globalState ?L = blob" "fired ?L = []"
    by (simp_all add: loadEntries_frame emptyManager_def)
  have inv: "sequentialInvariant ?L"
    using c q assms by (simp add: sequentialInvariant_def g)
  have cur: "sequentialInvariant (?L\<lparr>currentSessionId := x\<rparr>)" for x
    using inv by (simp add: sequentialInvariant_def consistent_def quiet_def messagesOf_def)
  have gs: "globalState (emptyManager blob uu un cl cn) = blob"
    by (simp add: emptyManager_def)
  show ?thesis
    unfolding loadSessions_def Let_def gs
    using inv cur by (simp split: list.splits)
qed

lemma last_chunkStates:
  "chunkStates chunks fs \<noteq> [] \<and> last (chunkStates chunks fs) = snd (fold sendMessage_chunk chunks fs)"
  by (induction chunks arbitrary: fs) simp_all

lemma fold_chunk_in_states: "snd (fold sendMessage_chunk chunks fs) \<in> set (chunkStates chunks fs)"
  using last_chunkStates [of chunks fs] last_in_set [of "chunkStates chunks fs"] by simp

lemma ensureSession_invariant:
  "sequentialInvariant st \<Longrightarrow> sequentialInvariant (ensureSession mode st)"
  by (simp add: ensureSession_def createNewSession_invariant)

lemma count_same:
  assumes "sessionObjs s = sessionObjs st" "arrayObjs s = arrayObjs st"
    "\<forall>x. m_streaming (messageObjs s x) = m_streaming (messageObjs st x)"
  shows "streamingCount (messagesOf s a) = streamingCount (messagesOf st a)"
  by (simp add: streamingCount_messagesOf assms)

lemma sendMessage_chunk_flags:
  assumes "sendMessage_chunk chunk (fr, st) = (fr', st')"
    and "m_streaming (messageObjs st (f_assistantMessage fr)) = Some True"
  shows "\<forall>x. m_streaming (messageObjs st' x) = m_streaming (messageObjs st x)"
    and "fired st' = fired st \<or> fired st' = fired st @ [Some (snapshot st' (f_session fr))]"
  using assms
  by (auto simp: sendMessage_chunk_def writeMessage_def fire_def snapshot_def messagesOf_def
      Let_def split: option.splits if_splits)

lemma chunkStates_invariant:
  assumes "m_streaming (messageObjs st (f_assistantMessage fr)) = Some True"
    and "streamingCount (messagesOf st (f_session fr)) \<le> 1"
    and "list_all observedAtMostOne (fired st)"
    and "s \<in> set (chunkStates chunks (fr, st))"
  shows "sessions s = sessions st \<and> sessionObjs s = sessionObjs st \<and>
    arrayObjs s = arrayObjs st \<and> nextAddr s = nextAddr st \<and> globalState s = globalState st \<and>
    (\<forall>x. m_streaming (messageObjs s x) = m_streaming (messageObjs st x)) \<and>
    list_all observedAtMostOne (fired s)"
  using assms
proof (induction chunks arbitrary: fr st)
  case Nil
  then show ?case by simp
next
  case (Cons c cs)
  obtain fr1 st1 where step: "sendMessage_chunk c (fr, st) = (fr1, st1)"
    by (cases "sendMessage_chunk c (fr, st)")
  note fm = sendMessage_chunk_frame [OF step]
  note fl = sendMessage_chunk_flags [OF step Cons.prems(1)]
  have cnt: "streamingCount (messagesOf st1 a) = streamingCount (messagesOf st a)" for a
    using fm(6,7) fl(1) by (rule count_same)
  have f1: "list_all observedAtMostOne (fired st1)"
    using fl(2) Cons.prems(2,3) by (auto simp: cnt)
  from Cons.prems(4) have "s = st \<or> s \<in> set (chunkStates cs (fr1, st1))"
    by (simp add: step)
  then show ?case
  proof
    assume "s = st"
    with Cons.prems(3) show ?thesis by simp
  next
    assume s: "s \<in> set (chunkStates cs (fr1, st1))"
    have "sessions s = sessions st1 \<and> sessionObjs s = sessionObjs st1 \<and>
      arrayObjs s = arrayObjs st1 \<and> nextAddr s = nextAddr st1 \<and> globalState s = globalState st1 \<and>
      (\<forall>x. m_streaming (messageObjs s x) = m_streaming (messageObjs st1 x)) \<and>
      list_all observedAtMostOne (fired s)"
    proof (rule Cons.IH [OF _ _ f1 s])
      show "m_streaming (messageObjs st1 (f_assistantMessage fr1)) = Some True"
        using fl(1) Cons.prems(1) by (simp add: fm(2))
      show "streamingCount (messagesOf st1 (f_session fr1)) \<le> 1"
        using Cons.prems(2) by (simp add: cnt fm(1))
    qed
    then show ?thesis using fm(6-9,11) fl(1) by simp
  qed
qed

lemma count_extended:
  assumes "consistent st0" "quiet st0" "e \<in> set (sessions st0)"
    and "\<forall>x. x < nextAddr st0 \<longrightarrow> m_streaming (messageObjs s x) = m_streaming (messageObjs st0 x)"
    and "arrayObjs s (s_messages (sessionObjs s (snd e))) =
           filter Q (arrayObjs st0 (s_messages (sessionObjs st0 (snd e)))) @ new"
  shows "streamingCount (messagesOf s (snd e)) = streamingCount (map (messageObjs s) new)"
proof -
  let ?A = "arrayObjs st0 (s_messages (sessionObjs st0 (snd e)))"
  have b: "\<forall>m \<in> set ?A. m < nextAddr st0"
    using consistentD(4) [OF assms(1), of "fst e" "snd e"] assms(3) by simp
  have "streamingCount (messagesOf st0 (snd e)) = 0"
    using assms(2,3) by (simp add: quiet_def list_all_iff)
  then have "\<forall>x \<in> set ?A. m_streaming (messageObjs st0 x) \<noteq> Some True"
    by (simp add: streamingCount_messagesOf filter_empty_conv)
  with b assms(4) have "\<forall>x \<in> set ?A. m_streaming (messageObjs s x) \<noteq> Some True"
    by simp
  then have "filter (\<lambda>x. m_streaming (messageObjs s x) = Some True) (filter Q ?A) = []"
    by (simp add: filter_empty_conv)
  then have "streamingCount (messagesOf s (snd e)) =
      length (filter (\<lambda>x. m_streaming (messageObjs s x) = Some True) new)"
    unfolding streamingCount_messagesOf assms(5) by simp
  also have "\<dots> = streamingCount (map (messageObjs s) new)"
    by (simp add: streamingCount_def filter_map o_def)
  finally show ?thesis .
qed

lemma addPlaceholder_fired:
  "fired (snd (addPlaceholder session st)) =
     fired st @ [Some (snapshot (snd (addPlaceholder session st)) session)]"
  by (simp add: addPlaceholder_def prim_defs Let_def split_def snapshot_def messagesOf_def)

lemma addUserMessage_fired: "fired (addUserMessage content mode session st) = fired st"
  by (simp add: addUserMessage_def pushUserMessage_def prim_defs Let_def split_def)

lemma sendMessage_begin_fired:
  assumes "currentSessionObj (ensureSession mode st) = Some session"
  shows "fired (snd (sendMessage_begin content mode st)) =
     fired (ensureSession mode st) @ [Some (snapshot (snd (sendMessage_begin content mode st)) session)]"
proof -
  have "snd (sendMessage_begin content mode st) =
      snd (addPlaceholder session (addUserMessage content mode session (ensureSession mode st)))"
    using assms by (simp add: sendMessage_begin_def Let_def split_def)
  then show ?thesis
    by (simp add: addPlaceholder_fired addUserMessage_fired)
qed

lemma sendMessage_begin_None:
  assumes "currentSessionObj (ensureSession mode st) = None"
  shows "sendMessage content mode chunks out st =
     (Inl (Error ''No active session found''), ensureSession mode st)"
    and "fst (sendMessage_begin content mode st) = Inl (Error ''No active session found'')"
  using assms by (simp_all add: sendMessage_def sendMessage_begin_def Let_def)

lemma globalState_save: "globalState (saveSessions st) = List.map_filter (saveEntry st) (sessions st)"
  by (simp add: saveSessions_def)

lemma sendMessage_end_saved:
  "globalState (snd (sendMessage_end fr st)) = globalState (saveSessions (snd (sendMessage_end fr st)))"
proof -
  let ?X = "writeSession (f_session fr)
      (\<lambda>s. s\<lparr>s_updatedAt := fst (newDate (writeMessage (f_assistantMessage fr)
         (\<lambda>m. m\<lparr>m_content := f_fullContent fr,
                 m_citations := (if length (f_citations fr) > 0
                                 then Some (arrayFromSet (f_citations fr)) else None),
                 m_streaming := Some False\<rparr>) st))\<rparr>)
      (snd (newDate (writeMessage (f_assistantMessage fr)
         (\<lambda>m. m\<lparr>m_content := f_fullContent fr,
                 m_citations := (if length (f_citations fr) > 0
                                 then Some (arrayFromSet (f_citations fr)) else None),
                 m_streaming := Some False\<rparr>) st)))"
  have e: "snd (sendMessage_end fr st) = fire (Some (f_session fr)) (saveSessions ?X)"
    by (simp add: sendMessage_end_def Let_def split_def)
  show ?thesis
    unfolding e by (rule saved_cong [where t = ?X]) simp_all
qed

lemma sendMessage_end_fired:
  "fired (snd (sendMessage_end fr st)) =
     fired st @ [Some (snapshot (snd (sendMessage_end fr st)) (f_session fr))]"
  by (simp add: sendMessage_end_def prim_defs Let_def split_def snapshot_def messagesOf_def
      saveSessions_def)

lemma sendMessage_catch_effect:
  assumes "arrayObjs st (s_messages (sessionObjs st session)) = xs @ [l]"
  shows "sessions (sendMessage_catch e session st) = sessions st"
    "nextAddr (sendMessage_catch e session st) = Suc (Suc (nextAddr st))"
    "s_id (sessionObjs (sendMessage_catch e session st) a) = s_id (sessionObjs st a)"
    "a \<noteq> session \<Longrightarrow>
       s_messages (sessionObjs (sendMessage_catch e session st) a) = s_messages (sessionObjs st a)"
    "s_messages (sessionObjs (sendMessage_catch e session st) session) = nextAddr st"
    "arrayObjs (sendMessage_catch e session st) =
       (arrayObjs st)(nextAddr st :=
          filter (\<lambda>m. m_id (messageObjs st m) \<noteq> m_id (messageObjs st l)) xs @ [Suc (nextAddr st)])"
    "x \<noteq> Suc (nextAddr st) \<Longrightarrow> messageObjs (sendMessage_catch e session st) x = messageObjs st x"
    "m_streaming (messageObjs (sendMessage_catch e session st) (Suc (nextAddr st))) = None"
    "globalState (sendMessage_catch e session st) = globalState st"
    "fired (sendMessage_catch e session st) =
       fired st @ [Some (snapshot (sendMessage_catch e session st) session)]"
  using assms
  by (simp_all add: sendMessage_catch_def prim_defs Let_def split_def snapshot_def messagesOf_def)

lemma invariant_atMostOne: "sequentialInvariant st \<Longrightarrow> atMostOneStreaming st"
  by (auto simp: sequentialInvariant_def quiet_def atMostOneStreaming_def list_all_iff)

lemma consistent_array_inj:
  assumes "consistent st" "(k, a) \<in> set (sessions st)" "(k', a') \<in> set (sessions st)"
    "s_messages (sessionObjs st a) = s_messages (sessionObjs st a')"
  shows "a = a'"
proof -
  have "inj_on (\<lambda>e. s_messages (sessionObjs st (snd e))) (set (sessions st))"
    using assms(1) by (simp add: consistent_def distinct_map)
  from inj_onD [OF this _ assms(2,3)] assms(4) show ?thesis by simp
qed

lemma inflight_count:
  assumes "consistent st0" "quiet st0" "e \<in> set (sessions st0)"
    and "\<forall>a. s_messages (sessionObjs s a) = s_messages (sessionObjs st0 a)"
    and "arrayObjs s = (arrayObjs st0)(am := arrayObjs st0 am @ [nextAddr st0, Suc (nextAddr st0)])"
    and "\<forall>x. x < nextAddr st0 \<longrightarrow> m_streaming (messageObjs s x) = m_streaming (messageObjs st0 x)"
    and "m_streaming (messageObjs s (nextAddr st0)) = None"
  shows "streamingCount (messagesOf s (snd e)) \<le> 1"
    and "m_streaming (messageObjs s (Suc (nextAddr st0))) \<noteq> Some True \<Longrightarrow>
           streamingCount (messagesOf s (snd e)) = 0"
proof -
  let ?ame = "s_messages (sessionObjs st0 (snd e))"
  let ?new = "if ?ame = am then [nextAddr st0, Suc (nextAddr st0)] else []"
  have arr: "arrayObjs s (s_messages (sessionObjs s (snd e))) =
      filter (\<lambda>_. True) (arrayObjs st0 ?ame) @ ?new"
    by (simp add: assms(4,5))
  note c = count_extended [OF assms(1,2,3,6) arr]
  show "streamingCount (messagesOf s (snd e)) \<le> 1"
    unfolding c by (simp add: assms(7))
  show "streamingCount (messagesOf s (snd e)) = 0"
    if "m_streaming (messageObjs s (Suc (nextAddr st0))) \<noteq> Some True"
    unfolding c using that by (simp add: assms(7))
qed

lemma inflight_consistent:
  assumes "consistent st0" "sessions s = sessions st0"
    and "\<forall>a. s_messages (sessionObjs s a) = s_messages (sessionObjs st0 a)"
    and "\<forall>a. s_id (sessionObjs s a) = s_id (sessionObjs st0 a)"
    and "arrayObjs s = (arrayObjs st0)(am := arrayObjs st0 am @ [nextAddr st0, Suc (nextAddr st0)])"
    and "nextAddr s = Suc (Suc (nextAddr st0))"
  shows "consistent s"
proof (rule consistent_modify [OF assms(1,2), where session = 0])
  show "nextAddr st0 \<le> nextAddr s" by (simp add: assms(6))
  show "s_id (sessionObjs s (snd e)) = s_id (sessionObjs st0 (snd e))" for e
    by (simp add: assms(4))
  show "s_messages (sessionObjs s (snd e)) = s_messages (sessionObjs st0 (snd e))" for e
    by (simp add: assms(3))
  show "s_messages (sessionObjs s 0) = s_messages (sessionObjs st0 0) \<or>
      nextAddr st0 \<le> s_messages (sessionObjs s 0) \<and> s_messages (sessionObjs s 0) < nextAddr s"
    by (simp add: assms(3))
  show "\<forall>m \<in> set (arrayObjs s (s_messages (sessionObjs s (snd e)))). m < nextAddr s"
    if "e \<in> set (sessions st0)" for e
  proof -
    have "\<forall>m \<in> set (arrayObjs st0 (s_messages (sessionObjs st0 (snd e)))). m < nextAddr st0"
      using consistentD(4) [OF assms(1), of "fst e" "snd e"] that by simp
    then show ?thesis
      by (auto simp: assms(3,5,6) less_Suc_eq)
  qed
qed

lemma sendMessage_run:
  assumes inv: "sequentialInvariant (ensureSession mode st)"
    and cur: "currentSessionObj (ensureSession mode st) = Some session"
  shows "\<exists>fr st1. sendMessage_begin content mode st = (Inr fr, st1) \<and>
           list_all atMostOneStreaming (chunkStates chunks (fr, st1)) \<and>
           sequentialInvariant (snd (sendMessage content mode chunks out st))"
proof -
  let ?st0 = "ensureSession mode st"
  let ?n = "nextAddr ?st0"
  let ?am = "s_messages (sessionObjs ?st0 session)"
  let ?st1 = "snd (sendMessage_begin content mode st)"
  from inv have c0: "consistent ?st0" and q0: "quiet ?st0" and b0: "blobQuiet (globalState ?st0)"
    and f0: "list_all observedAtMostOne (fired ?st0)"
    by (simp_all add: sequentialInvariant_def)
  from cur obtain cid where mem: "(cid, session) \<in> set (sessions ?st0)"
    by (auto simp: currentSessionObj_def split: option.splits dest: map_of_SomeD)
  note b = sendMessage_begin_effect [OF cur, of content]
  from b(1) obtain api where fst1: "fst (sendMessage_begin content mode st) =
      Inr \<lparr>f_session = session, f_apiMessages = api, f_assistantMessage = Suc ?n,
           f_fullContent = [], f_citations = []\<rparr>"
    by blast
  define fr where "fr = \<lparr>f_session = session, f_apiMessages = api, f_assistantMessage = Suc ?n,
           f_fullContent = [], f_citations = []\<rparr>"
  have beg: "sendMessage_begin content mode st = (Inr fr, ?st1)"
    using fst1 by (simp add: fr_def prod_eq_iff)
  have fr: "f_session fr = session" "f_assistantMessage fr = Suc ?n"
    by (simp_all add: fr_def)
  have k1: "sessions ?st1 = sessions ?st0" by (rule b(7))
  have k2: "\<forall>a. s_messages (sessionObjs ?st1 a) = s_messages (sessionObjs ?st0 a)"
    by (simp add: b(4))
  have k2': "\<forall>a. s_id (sessionObjs ?st1 a) = s_id (sessionObjs ?st0 a)"
    by (simp add: b(5))
  have k3: "arrayObjs ?st1 = (arrayObjs ?st0)(?am := arrayObjs ?st0 ?am @ [?n, Suc ?n])"
    by (rule b(3))
  have k4: "\<forall>x. x < ?n \<longrightarrow> m_streaming (messageObjs ?st1 x) = m_streaming (messageObjs ?st0 x)"
    by (simp add: b(2))
  have k5: "m_streaming (messageObjs ?st1 ?n) = None"
    by (simp add: b(2) userMessageOf_def)
  have k6: "m_streaming (messageObjs ?st1 (Suc ?n)) = Some True"
    by (simp add: b(2) placeholderOf_def)
  have k7: "nextAddr ?st1 = Suc (Suc ?n)" by (rule b(6))
  have k8: "globalState ?st1 = globalState ?st0" by (rule b(9))
  have cnt1: "streamingCount (messagesOf ?st1 session) \<le> 1"
    using inflight_count(1) [OF c0 q0 mem k2 k3 k4 k5] by simp
  have f1: "list_all observedAtMostOne (fired ?st1)"
    using f0 cnt1 by (simp add: sendMessage_begin_fired [OF cur])
  have w: "sessions s = sessions ?st0 \<and>
      (\<forall>a. s_messages (sessionObjs s a) = s_messages (sessionObjs ?st0 a)) \<and>
      (\<forall>a. s_id (sessionObjs s a) = s_id (sessionObjs ?st0 a)) \<and>
      arrayObjs s = (arrayObjs ?st0)(?am := arrayObjs ?st0 ?am @ [?n, Suc ?n]) \<and>
      (\<forall>x. x < ?n \<longrightarrow> m_streaming (messageObjs s x) = m_streaming (messageObjs ?st0 x)) \<and>
      m_streaming (messageObjs s ?n) = None \<and>
      m_streaming (messageObjs s (Suc ?n)) = Some True \<and>
      nextAddr s = Suc (Suc ?n) \<and> globalState s = globalState ?st0 \<and>
      list_all observedAtMostOne (fired s)"
    if "s \<in> set (chunkStates chunks (fr, ?st1))" for s
  proof -
    have "sessions s = sessions ?st1 \<and> sessionObjs s = sessionObjs ?st1 \<and>
      arrayObjs s = arrayObjs ?st1 \<and> nextAddr s = nextAddr ?st1 \<and>
      globalState s = globalState ?st1 \<and>
      (\<forall>x. m_streaming (messageObjs s x) = m_streaming (messageObjs ?st1 x)) \<and>
      list_all observedAtMostOne (fired s)"
      using _ _ f1 that
    proof (rule chunkStates_invariant)
      show "m_streaming (messageObjs ?st1 (f_assistantMessage fr)) = Some True"
        by (simp add: fr k6)
      show "streamingCount (messagesOf ?st1 (f_session fr)) \<le> 1"
        using cnt1 by (simp add: fr)
    qed
    then show ?thesis
      using k1 k2 k2' k3 k4 k5 k6 k7 k8 by simp
  qed
  have wa: "atMostOneStreaming s" if "s \<in> set (chunkStates chunks (fr, ?st1))" for s
  proof -
    note s = w [OF that]
    have "streamingCount (messagesOf s (snd e)) \<le> 1" if "e \<in> set (sessions ?st0)" for e
      using c0 q0 that by (rule inflight_count(1)) (use s in simp_all)
    then show ?thesis
      using s by (simp add: atMostOneStreaming_def list_all_iff)
  qed
  obtain fr2 st2 where fo: "fold sendMessage_chunk chunks (fr, ?st1) = (fr2, st2)"
    by (cases "fold sendMessage_chunk chunks (fr, ?st1)")
  have "st2 \<in> set (chunkStates chunks (fr, ?st1))"
    using fold_chunk_in_states [of chunks "(fr, ?st1)"] by (simp add: fo)
  note s2 = w [OF this]
  have fr2: "f_session fr2 = session" "f_assistantMessage fr2 = Suc ?n"
    using fold_chunk_frame(1,2) [OF fo] fr by simp_all
  have fin: "sequentialInvariant (snd (sendMessage content mode chunks out st))"
  proof (cases out)
    case EndOfStream
    let ?S = "snd (sendMessage_end fr2 st2)"
    have S: "snd (sendMessage content mode chunks out st) = ?S"
      by (simp add: EndOfStream sendMessage_unfold(1) [OF beg fo])
    note e = sendMessage_end_effect [of fr2 st2]
    have e1: "sessions ?S = sessions ?st0" by (simp add: e s2)
    have e2: "\<forall>a. s_messages (sessionObjs ?S a) = s_messages (sessionObjs ?st0 a)"
      by (simp add: e s2)
    have e2': "\<forall>a. s_id (sessionObjs ?S a) = s_id (sessionObjs ?st0 a)"
      by (simp add: e s2)
    have e3: "arrayObjs ?S = (arrayObjs ?st0)(?am := arrayObjs ?st0 ?am @ [?n, Suc ?n])"
      by (simp add: e s2)
    have e4: "\<forall>x. x < ?n \<longrightarrow> m_streaming (messageObjs ?S x) = m_streaming (messageObjs ?st0 x)"
      by (simp add: e(2) fr2 s2)
    have e5: "m_streaming (messageObjs ?S ?n) = None"
      by (simp add: e(2) fr2 s2)
    have e6: "m_streaming (messageObjs ?S (Suc ?n)) \<noteq> Some True"
      by (simp add: e(2) fr2)
    have e7: "nextAddr ?S = Suc (Suc ?n)" by (simp add: e s2)
    have cnt: "streamingCount (messagesOf ?S (snd x)) = 0" if "x \<in> set (sessions ?st0)" for x
      using inflight_count(2) [OF c0 q0 that e2 e3 e4 e5 e6] .
    have "sequentialInvariant ?S"
    proof (rule sequentialInvariantI)
      show "consistent ?S" using c0 e1 e2 e2' e3 e7 by (rule inflight_consistent)
      show "quiet ?S" using cnt by (simp add: quiet_def list_all_iff e1)
      show "globalState ?S = globalState (saveSessions ?S)" by (rule sendMessage_end_saved)
      show "list_all observedAtMostOne (fired ?S)"
        using s2 cnt [OF mem] by (simp add: sendMessage_end_fired fr2)
    qed
    then show ?thesis by (simp add: S)
  next
    case (Failure err)
    let ?S = "sendMessage_catch err session st2"
    let ?Q = "\<lambda>m. m_id (messageObjs st2 m) \<noteq> m_id (messageObjs st2 (Suc ?n))"
    have S: "snd (sendMessage content mode chunks out st) = ?S"
      by (simp add: Failure sendMessage_unfold(2) [OF beg fo] fr2)
    have arr2: "arrayObjs st2 (s_messages (sessionObjs st2 session)) =
        (arrayObjs ?st0 ?am @ [?n]) @ [Suc ?n]"
      using s2 by simp
    note e = sendMessage_catch_effect [OF arr2, where e = err]
    have n2: "nextAddr st2 = Suc (Suc ?n)" using s2 by simp
    have e1: "sessions ?S = sessions ?st0" by (simp add: e(1) s2)
    have flags: "m_streaming (messageObjs ?S x) = m_streaming (messageObjs ?st0 x)"
      if "x < ?n" for x
      using that s2 by (simp add: e(7) n2)
    have fn: "m_streaming (messageObjs ?S ?n) = None"
      using s2 by (simp add: e(7) n2)
    have fe: "m_streaming (messageObjs ?S (Suc (Suc (Suc ?n)))) = None"
      using e(8) by (simp add: n2)
    have own: "arrayObjs ?S (s_messages (sessionObjs ?S session)) =
        filter ?Q (arrayObjs ?st0 ?am) @ (filter ?Q [?n] @ [Suc (Suc (Suc ?n))])"
      by (simp add: e(5,6) n2)
    have other: "arrayObjs ?S (s_messages (sessionObjs ?S (snd x))) =
        filter (\<lambda>_. True) (arrayObjs ?st0 (s_messages (sessionObjs ?st0 (snd x)))) @ []"
      if x: "x \<in> set (sessions ?st0)" and ne: "snd x \<noteq> session" for x
    proof -
      have 1: "s_messages (sessionObjs ?S (snd x)) = s_messages (sessionObjs ?st0 (snd x))"
        using ne s2 by (simp add: e(4))
      have 2: "s_messages (sessionObjs ?st0 (snd x)) < ?n"
        using consistentD(3) [OF c0, of "fst x" "snd x"] x by simp
      have 3: "s_messages (sessionObjs ?st0 (snd x)) \<noteq> ?am"
        using consistent_array_inj [OF c0, of "fst x" "snd x" cid session] x mem ne by auto
      show ?thesis
        using 2 3 s2 by (simp add: 1 e(6) n2)
    qed
    have cnt: "streamingCount (messagesOf ?S (snd x)) = 0" if x: "x \<in> set (sessions ?st0)" for x
    proof (cases "snd x = session")
      case True
      have "streamingCount (messagesOf ?S (snd x)) =
          streamingCount (map (messageObjs ?S) (filter ?Q [?n] @ [Suc (Suc (Suc ?n))]))"
        using c0 q0 x
      proof (rule count_extended)
        show "\<forall>y. y < ?n \<longrightarrow> m_streaming (messageObjs ?S y) = m_streaming (messageObjs ?st0 y)"
          using flags by simp
        show "arrayObjs ?S (s_messages (sessionObjs ?S (snd x))) =
            filter ?Q (arrayObjs ?st0 (s_messages (sessionObjs ?st0 (snd x)))) @
              (filter ?Q [?n] @ [Suc (Suc (Suc ?n))])"
          using own by (simp add: True)
      qed
      then show ?thesis by (simp add: fn fe)
    next
      case False
      have "streamingCount (messagesOf ?S (snd x)) = streamingCount (map (messageObjs ?S) [])"
        using c0 q0 x
      proof (rule count_extended)
        show "\<forall>y. y < ?n \<longrightarrow> m_streaming (messageObjs ?S y) = m_streaming (messageObjs ?st0 y)"
          using flags by simp
        show "arrayObjs ?S (s_messages (sessionObjs ?S (snd x))) =
            filter (\<lambda>_. True) (arrayObjs ?st0 (s_messages (sessionObjs ?st0 (snd x)))) @ []"
          using x False by (rule other)
      qed
      then show ?thesis by simp
    qed
    have cS: "consistent ?S"
    proof (rule consistent_modify [OF c0 e1, where session = session])
      show "nextAddr ?st0 \<le> nextAddr ?S" by (simp add: e(2) n2)
      show "s_id (sessionObjs ?S (snd x)) = s_id (sessionObjs ?st0 (snd x))" for x
        using s2 by (simp add: e(3))
      show "s_messages (sessionObjs ?S (snd x)) = s_messages (sessionObjs ?st0 (snd x))"
        if "snd x \<noteq> session" for x
        using that s2 by (simp add: e(4))
      show "s_messages (sessionObjs ?S session) = s_messages (sessionObjs ?st0 session) \<or>
          ?n \<le> s_messages (sessionObjs ?S session) \<and>
          s_messages (sessionObjs ?S session) < nextAddr ?S"
        by (simp add: e(2,5) n2)
      show "\<forall>m \<in> set (arrayObjs ?S (s_messages (sessionObjs ?S (snd x)))). m < nextAddr ?S"
        if x: "x \<in> set (sessions ?st0)" for x
      proof (cases "snd x = session")
        case True
        have "\<forall>m \<in> set (arrayObjs ?st0 ?am). m < ?n"
          using consistentD(4) [OF c0 mem] .
        then show ?thesis
          unfolding True own by (auto simp: e(2) n2 less_Suc_eq)
      next
        case False
        have "\<forall>m \<in> set (arrayObjs ?st0 (s_messages (sessionObjs ?st0 (snd x)))). m < ?n"
          using consistentD(4) [OF c0, of "fst x" "snd x"] x by simp
        then show ?thesis
          unfolding other [OF x False] by (auto simp: e(2) n2 less_Suc_eq)
      qed
    qed
    have "sequentialInvariant ?S"
      unfolding sequentialInvariant_def
    proof (intro conjI)
      show "consistent ?S" by (rule cS)
      show "quiet ?S" using cnt by (simp add: quiet_def list_all_iff e1)
      show "blobQuiet (globalState ?S)" using b0 s2 by (simp add: e(9))
      show "list_all observedAtMostOne (fired ?S)"
        using s2 cnt [OF mem] by (simp add: e(10))
    qed
    then show ?thesis by (simp add: S)
  qed
  show ?thesis
    using beg wa fin by (auto simp: list_all_iff)
qed

lemma perform_invariant:
  assumes "sequentialInvariant st"
  shows "sequentialInvariant (perform opn st)"
proof (cases opn)
  case (CreateNewSession title mode)
  with assms show ?thesis by (simp add: createNewSession_invariant)
next
  case (SendMessage content mode chunks out)
  note i0 = ensureSession_invariant [OF assms, of mode]
  show ?thesis
  proof (cases "currentSessionObj (ensureSession mode st)")
    case None
    with i0 show ?thesis by (simp add: SendMessage sendMessage_begin_None(1))
  next
    case (Some session)
    from sendMessage_run [OF i0 Some, of content chunks out] show ?thesis
      by (auto simp: SendMessage)
  qed
next
  case (SwitchToSession sessionId)
  with assms show ?thesis by (simp add: switchToSession_invariant)
next
  case (DeleteSession sessionId)
  with assms show ?thesis by (simp add: deleteSession_invariant)
next
  case ClearAllSessions
  with assms show ?thesis by (simp add: clearAllSessions_invariant)
next
  case Restart
  from assms have "blobQuiet (globalState st)" by (simp add: sequentialInvariant_def)
  then show ?thesis by (simp add: Restart loadSessions_invariant)
qed

lemma waitingStates_atMostOne:
  assumes "sequentialInvariant st"
  shows "list_all atMostOneStreaming (waitingStates opn st)"
proof (cases opn)
  case (SendMessage content mode chunks out)
  note i0 = ensureSession_invariant [OF assms, of mode]
  show ?thesis
  proof (cases "currentSessionObj (ensureSession mode st)")
    case None
    then have "fst (sendMessage_begin content mode st) = Inl (Error ''No active session found'')"
      by (rule sendMessage_begin_None(2))
    then show ?thesis
      by (cases "sendMessage_begin content mode st") (simp add: waitingStates_def SendMessage)
  next
    case (Some session)
    from sendMessage_run [OF i0 Some, of content chunks out] show ?thesis
      by (auto simp: waitingStates_def SendMessage)
  qed
qed (simp_all add: waitingStates_def)

lemma observationPoints_invariant:
  "sequentialInvariant st \<Longrightarrow> list_all atMostOneStreaming (observationPoints ops st)"
proof (induction ops arbitrary: st)
  case Nil
  then show ?case by (simp add: invariant_atMostOne)
next
  case (Cons opn ops)
  from Cons.prems have "sequentialInvariant (perform opn st)" by (rule perform_invariant)
  then have "list_all atMostOneStreaming (observationPoints ops (perform opn st))"
    by (rule Cons.IH)
  with Cons.prems show ?case
    by (simp add: invariant_atMostOne waitingStates_atMostOne)
qed

lemma newChatManager_invariant: "sequentialInvariant (newChatManager [] uu cl)"
  unfolding newChatManager_def by (rule loadSessions_invariant) (simp add: blobQuiet_def)

text \<open>
  Claim C2, as amended. The operations are carried out one at a time, each to its end before
  the next one starts, from a first start with nothing persisted; a restart loads what was
  persisted. Then at every observation point (between two operations, while \<^verbatim>\<open>sendMessage\<close>
  waits for a chunk, and in every notification fired) each session has at most one message
  with \<^verbatim>\<open>streaming = true\<close>.
\<close>

theorem streaming_invariant_sequential:
  "list_all atMostOneStreaming (observationPoints ops (newChatManager [] uu cl))"
  using newChatManager_invariant by (rule observationPoints_invariant)

lemma demoStreaming_count: "streamingCount (messagesOf demoStreaming 1) = 1"
proof -
  have "streamingCount (messagesOf demoStreaming 1) =
      length (filter (\<lambda>t. snd (snd t) = Some True)
        (map (\<lambda>m. (m_role m, m_content m, m_streaming m)) (messagesOf demoStreaming 1)))"
    by (simp add: streamingCount_def filter_map comp_def)
  then show ?thesis unfolding demoStreaming_messages by simp
qed

theorem streaming_invariant_sequential_witness:
  "list_all atMostOneStreaming
     (observationPoints
        [SendMessage ''first question'' General
           [\<lparr>ch_choices = Some [Some (Some ''Hel'')], ch_citations = None\<rparr>,
            \<lparr>ch_choices = Some [Some (Some ''lo'')], ch_citations = Some [''a.com'']\<rparr>]
           EndOfStream,
         Restart,
         SendMessage ''second question'' Debug []
           (Failure (Error ''Rate limit exceeded. Please try again later.'')),
         DeleteSession ''u'']
        (newChatManager [] demoUuid demoClock)) \<and>
   demoStreaming \<in> set
     (observationPoints
        [SendMessage ''first question'' General
           [\<lparr>ch_choices = Some [Some (Some ''Hel'')], ch_citations = None\<rparr>,
            \<lparr>ch_choices = Some [Some (Some ''lo'')], ch_citations = Some [''a.com'']\<rparr>]
           EndOfStream,
         Restart,
         SendMessage ''second question'' Debug []
           (Failure (Error ''Rate limit exceeded. Please try again later.'')),
         DeleteSession ''u'']
        (newChatManager [] demoUuid demoClock)) \<and>
   streamingCount (messagesOf demoStreaming 1) = 1"
proof -
  obtain fr st1 where "sendMessage_begin ''first question'' General demoManager = (Inr fr, st1)"
    using demo_current [of General] by (rule sendMessage_begin_frame)
  then have b: "sendMessage_begin ''first question'' General demoManager = (Inr fr, demoStreaming)"
    by (simp add: demoStreaming_def)
  have "demoStreaming \<in> set (waitingStates (SendMessage ''first question'' General
           [\<lparr>ch_choices = Some [Some (Some ''Hel'')], ch_citations = None\<rparr>,
            \<lparr>ch_choices = Some [Some (Some ''lo'')], ch_citations = Some [''a.com'']\<rparr>]
           EndOfStream) demoManager)"
    by (simp add: waitingStates_def b)
  then have "demoStreaming \<in> set
     (observationPoints
        [SendMessage ''first question'' General
           [\<lparr>ch_choices = Some [Some (Some ''Hel'')], ch_citations = None\<rparr>,
            \<lparr>ch_choices = Some [Some (Some ''lo'')], ch_citations = Some [''a.com'']\<rparr>]
           EndOfStream,
         Restart,
         SendMessage ''second question'' Debug []
           (Failure (Error ''Rate limit exceeded. Please try again later.'')),
         DeleteSession ''u'']
        (newChatManager [] demoUuid demoClock))"
    unfolding demoManager_def [symmetric] observationPoints.simps by simp
  with streaming_invariant_sequential [of _ demoUuid demoClock] demoStreaming_count
  show ?thesis by blast
qed

text \<open>
  Claim C2 as stated fails: \<^verbatim>\<open>sendMessage\<close> can be called while an earlier call still waits for
  its stream. In \<open>demoStreaming\<close> the first call has fired its first notification and its
  placeholder is streaming; the second call adds a second streaming placeholder to the same
  session, and the notification it fires shows both.
\<close>

theorem streaming_invariant_counterexample:
  "sessions (snd (sendMessage_begin ''second question'' General demoStreaming)) = [(''u'', 1)] \<and>
   map m_streaming (messagesOf (snd (sendMessage_begin ''second question'' General demoStreaming)) 1) =
     [None, None, Some True, None, Some True] \<and>
   streamingCount (messagesOf (snd (sendMessage_begin ''second question'' General demoStreaming)) 1) = 2 \<and>
   \<not> atMostOneStreaming (snd (sendMessage_begin ''second question'' General demoStreaming)) \<and>
   \<not> observedAtMostOne (last (fired (snd (sendMessage_begin ''second question'' General demoStreaming))))"
proof -
  let ?S = "snd (sendMessage_begin ''second question'' General demoStreaming)"
  note cur = demoStreaming_current [of General]
  have s: "sessions ?S = [(''u'', 1)]"
    using sendMessage_begin_effect(7) [OF cur, of "''second question''"]
    by (simp add: demoStreaming_ensure demoStreaming_facts)
  have m: "messagesOf ?S 1 = messagesOf demoStreaming 1 @
       [userMessageOf ''second question'' General demoStreaming, placeholderOf demoStreaming]"
    using sendMessage_begin_messages [OF demoStreaming_consistent cur, of "''second question''"]
    by (simp add: demoStreaming_ensure)
  have "map m_streaming (messagesOf demoStreaming 1) =
      map (\<lambda>t. snd (snd t)) (map (\<lambda>m. (m_role m, m_content m, m_streaming m)) (messagesOf demoStreaming 1))"
    by (simp add: comp_def)
  then have f: "map m_streaming (messagesOf demoStreaming 1) = [None, None, Some True]"
    unfolding demoStreaming_messages by simp
  have fl: "map m_streaming (messagesOf ?S 1) = [None, None, Some True, None, Some True]"
    unfolding m map_append f by (simp add: userMessageOf_def placeholderOf_def)
  have c: "streamingCount (messagesOf ?S 1) = 2"
    unfolding m streamingCount_simps demoStreaming_count
    by (simp add: userMessageOf_def placeholderOf_def)
  have n: "\<not> atMostOneStreaming ?S"
    using c by (simp add: atMostOneStreaming_def s)
  have "fired ?S = fired demoStreaming @ [Some (snapshot ?S 1)]"
    using sendMessage_begin_fired [OF cur, of "''second question''"]
    by (simp add: demoStreaming_ensure)
  then have o: "\<not> observedAtMostOne (last (fired ?S))"
    using c by simp
  from s fl c n o show ?thesis by blast
qed

section \<open>Error recovery when calls overlap\<close>

lemma demoStreaming_sources:
  "uuidSource demoStreaming = demoUuid" "uuidCalls demoStreaming = 4"
  "clock demoStreaming = demoClock" "clockCalls demoStreaming = 6"
  using sendMessage_begin_effect(10-13) [OF demo_current [of General], of "''first question''"]
  by (simp_all add: demoStreaming_def demo_ensure)

lemma demoStreaming_all:
  "messagesOf demoStreaming 1 =
     [\<lparr>m_id = ''uu'', m_role = System, m_content = systemMessages General, m_timestamp = 1002,
       m_citations = None, m_mode = None, m_streaming = None\<rparr>,
      \<lparr>m_id = ''uuu'', m_role = User, m_content = ''first question'', m_timestamp = 1003,
       m_citations = None, m_mode = Some General, m_streaming = None\<rparr>,
      \<lparr>m_id = ''uuuu'', m_role = Assistant, m_content = [], m_timestamp = 1005,
       m_citations = None, m_mode = None, m_streaming = Some True\<rparr>]"
  using sendMessage_begin_messages [OF demo_consistent demo_current [of General], of "''first question''"]
  by (simp add: demoStreaming_def demo_ensure' userMessageOf_def placeholderOf_def demoUuid_def
      demoClock_def eval_nat_numeral)

lemma demoSecond_facts:
  "messagesOf (snd (sendMessage_begin ''second question'' General demoStreaming)) 1 =
     messagesOf demoStreaming 1 @
     [\<lparr>m_id = ''uuuuu'', m_role = User, m_content = ''second question'', m_timestamp = 1006,
       m_citations = None, m_mode = Some General, m_streaming = None\<rparr>,
      \<lparr>m_id = ''uuuuuu'', m_role = Assistant, m_content = [], m_timestamp = 1008,
       m_citations = None, m_mode = None, m_streaming = Some True\<rparr>]"
  "arrayObjs (snd (sendMessage_begin ''second question'' General demoStreaming)) 0 = [2, 3, 4, 5, 6]"
  "s_messages (sessionObjs (snd (sendMessage_begin ''second question'' General demoStreaming)) (Suc 0)) = 0"
  "nextAddr (snd (sendMessage_begin ''second question'' General demoStreaming)) = 7"
  "uuidSource (snd (sendMessage_begin ''second question'' General demoStreaming)) = demoUuid"
  "uuidCalls (snd (sendMessage_begin ''second question'' General demoStreaming)) = 6"
  "clock (snd (sendMessage_begin ''second question'' General demoStreaming)) = demoClock"
  "clockCalls (snd (sendMessage_begin ''second question'' General demoStreaming)) = 9"
  using sendMessage_begin_messages [OF demoStreaming_consistent demoStreaming_current [of General],
      of "''second question''"]
    sendMessage_begin_effect [OF demoStreaming_current [of General], of "''second question''"]
  by (simp_all add: demoStreaming_ensure demoStreaming_facts demoStreaming_sources userMessageOf_def
      placeholderOf_def demoUuid_def demoClock_def eval_nat_numeral)

lemma demoInterleaved_messages:
  "messagesOf demoInterleaved 1 =
     [\<lparr>m_id = ''uu'', m_role = System, m_content = systemMessages General, m_timestamp = 1002,
       m_citations = None, m_mode = None, m_streaming = None\<rparr>,
      \<lparr>m_id = ''uuu'', m_role = User, m_content = ''first question'', m_timestamp = 1003,
       m_citations = None, m_mode = Some General, m_streaming = None\<rparr>,
      \<lparr>m_id = ''uuuu'', m_role = Assistant, m_content = ''Par'', m_timestamp = 1005,
       m_citations = None, m_mode = None, m_streaming = Some True\<rparr>,
      \<lparr>m_id = ''uuuuu'', m_role = User, m_content = ''second question'', m_timestamp = 1006,
       m_citations = None, m_mode = Some General, m_streaming = None\<rparr>,
      \<lparr>m_id = ''uuuuuuu'', m_role = Assistant,
       m_content = ''Error: Perplexity server error. Please try again later.'', m_timestamp = 1009,
       m_citations = None, m_mode = None, m_streaming = None\<rparr>]"
proof -
  let ?B = "snd (sendMessage_begin ''second question'' General demoStreaming)"
  let ?e = "Error ''Perplexity server error. Please try again later.''"
  obtain frA st1 where a: "sendMessage_begin ''first question'' General demoManager = (Inr frA, st1)"
    "f_session frA = 1" "f_assistantMessage frA = Suc (nextAddr (ensureSession General demoManager))"
    "f_fullContent frA = []"
    using demo_current [of General] by (rule sendMessage_begin_frame)
  have "nextAddr demoStreaming = Suc (Suc (nextAddr (ensureSession General demoManager)))"
    using sendMessage_begin_effect(6) [OF demo_current [of General], of "''first question''"]
    by (simp add: demoStreaming_def)
  then have p: "f_assistantMessage frA = 4"
    by (simp add: a(3) demoStreaming_facts)
  let ?st3 = "fire (Some 1)
      (writeMessage 4 (\<lambda>m. m\<lparr>m_content := ''Par'', m_streaming := Some True\<rparr>) ?B)"
  have ch: "sendMessage_chunk \<lparr>ch_choices = Some [Some (Some ''Par'')], ch_citations = None\<rparr>
      (frA, ?B) = (frA\<lparr>f_fullContent := ''Par''\<rparr>, ?st3)"
    by (simp add: sendMessage_chunk_def deltaContent_def truthy_def orDefault_def a(2,4) p Let_def)
  have di: "demoInterleaved = sendMessage_catch ?e 1 ?st3"
    unfolding demoInterleaved_def a(1) by (simp add: ch a(2))
  have arr: "arrayObjs ?st3 (s_messages (sessionObjs ?st3 1)) = [2, 3, 4, 5] @ [6]"
    by (simp add: writeMessage_def demoSecond_facts)
  have bound: "\<forall>m \<in> set [2, 3, 4, 5]. m < nextAddr ?st3"
    by (simp add: writeMessage_def demoSecond_facts)
  note c = sendMessage_catch_messages [OF arr bound, of ?e]
  have objs: "map (messageObjs ?B) [2, 3, 4, 5, 6] =
      messagesOf demoStreaming 1 @
     [\<lparr>m_id = ''uuuuu'', m_role = User, m_content = ''second question'', m_timestamp = 1006,
       m_citations = None, m_mode = Some General, m_streaming = None\<rparr>,
      \<lparr>m_id = ''uuuuuu'', m_role = Assistant, m_content = [], m_timestamp = 1008,
       m_citations = None, m_mode = None, m_streaming = Some True\<rparr>]"
    using demoSecond_facts(1) by (simp add: messagesOf_def demoSecond_facts(2,3))
  have o: "messageObjs ?B 2 = \<lparr>m_id = ''uu'', m_role = System, m_content = systemMessages General,
        m_timestamp = 1002, m_citations = None, m_mode = None, m_streaming = None\<rparr>"
    "messageObjs ?B 3 = \<lparr>m_id = ''uuu'', m_role = User, m_content = ''first question'',
        m_timestamp = 1003, m_citations = None, m_mode = Some General, m_streaming = None\<rparr>"
    "messageObjs ?B 4 = \<lparr>m_id = ''uuuu'', m_role = Assistant, m_content = [], m_timestamp = 1005,
        m_citations = None, m_mode = None, m_streaming = Some True\<rparr>"
    "messageObjs ?B 5 = \<lparr>m_id = ''uuuuu'', m_role = User, m_content = ''second question'',
        m_timestamp = 1006, m_citations = None, m_mode = Some General, m_streaming = None\<rparr>"
    "messageObjs ?B 6 = \<lparr>m_id = ''uuuuuu'', m_role = Assistant, m_content = [], m_timestamp = 1008,
        m_citations = None, m_mode = None, m_streaming = Some True\<rparr>"
    using objs unfolding demoStreaming_all by simp_all
  have u: "demoUuid 6 = ''uuuuuuu''" "demoClock 9 = 1009"
    by (simp_all add: demoUuid_def demoClock_def eval_nat_numeral)
  show ?thesis
    unfolding di c
    by (simp add: writeMessage_def o errorText_def demoSecond_facts u)
qed

text \<open>
  Claim C1 as stated fails: in \<open>demoInterleaved\<close> the first call appended its user message and
  its placeholder, received \<^verbatim>\<open>Par\<close> and then failed. Its \<^verbatim>\<open>catch\<close> block removed the last
  message of the session, which is the placeholder of the second call; the placeholder with
  \<^verbatim>\<open>Par\<close> is still in the session and still has \<^verbatim>\<open>streaming = true\<close>.
\<close>

theorem failure_recovery_counterexample:
  "map m_role (messagesOf demoInterleaved 1) = [System, User, Assistant, User, Assistant] \<and>
   map m_content (messagesOf demoInterleaved 1) =
     [systemMessages General, ''first question'', ''Par'', ''second question'',
      ''Error: Perplexity server error. Please try again later.''] \<and>
   map m_streaming (messagesOf demoInterleaved 1) = [None, None, Some True, None, None] \<and>
   filter (\<lambda>m. m_streaming m = Some True) (messagesOf demoInterleaved 1) \<noteq> []"
  unfolding demoInterleaved_messages by simp

end
